(* ===== verification/AVL_Prelude.thy ===== *)
theory AVL_Prelude
  imports Main "HOL-Library.Tree"
begin

text \<open>
  Shared vocabulary of the development: the Python error the tree code can raise, the
  result type of a fallible method, the sorted-list insertion that specifies the set
  semantics of the tree, generic lemmas on sorted lists used by every component, and
  Python's string operations used by \<^verbatim>\<open>__repr__\<close>.
\<close>

named_theorems avl_list_simps \<open>facts on sorted lists used by the tree proofs\<close>

datatype py_error = AttributeError

type_synonym 'a result = "py_error + 'a"

text \<open>Insertion into a strictly sorted list: the abstract effect of inserting a key.\<close>

fun ins_list :: "'a::linorder \<Rightarrow> 'a list \<Rightarrow> 'a list" where
  "ins_list x [] = [x]"
| "ins_list x (y # ys) =
     (if x < y then x # y # ys else if x = y then y # ys else y # ins_list x ys)"

subsection \<open>Python strings\<close>

text \<open>The newline character, \<^verbatim>\<open>str.split\<close> with a one-character separator (it
  keeps empty fields: \<^verbatim>\<open>''.split('\\n') == ['']\<close>), \<^verbatim>\<open>str.join\<close>, and
  \<^verbatim>\<open>str\<close> of a Python integer in decimal.\<close>

definition newline :: char where
  "newline = CHR 0x0A"

fun py_split :: "char \<Rightarrow> string \<Rightarrow> string list" where
  "py_split c [] = [[]]"
| "py_split c (x # xs) =
     (if x = c then [] # py_split c xs
      else (case py_split c xs of [] \<Rightarrow> [[x]] | w # ws \<Rightarrow> (x # w) # ws))"

fun py_join :: "string \<Rightarrow> string list \<Rightarrow> string" where
  "py_join sep [] = []"
| "py_join sep [w] = w"
| "py_join sep (w # ws) = w @ sep @ py_join sep ws"

fun nat_str :: "nat \<Rightarrow> string" where
  "nat_str n = (if n < 10 then [char_of (48 + n)] else nat_str (n div 10) @ [char_of (48 + n mod 10)])"

definition int_str :: "int \<Rightarrow> string" where
  "int_str i = (if i < 0 then CHR ''-'' # nat_str (nat (- i)) else nat_str (nat i))"

declare nat_str.simps [simp del]

subsection \<open>Lemmas\<close>

lemma set_ins_list [simp]: "set (ins_list x xs) = insert x (set xs)"
  by (induction xs) auto

lemma sorted_ins_list [simp]:
  "sorted_wrt (<) xs \<Longrightarrow> sorted_wrt (<) (ins_list x xs)"
  by (induction xs) auto

lemma ins_list_mem [simp]: "x \<in> set xs \<Longrightarrow> sorted_wrt (<) xs \<Longrightarrow> ins_list x xs = xs"
  by (induction xs) auto

lemma ins_list_app_lt [avl_list_simps]:
  "sorted_wrt (<) (xs @ a # ys) \<Longrightarrow> x < a \<Longrightarrow> ins_list x (xs @ a # ys) = ins_list x xs @ a # ys"
  by (induction xs) (auto simp: sorted_wrt_append)

lemma ins_list_app_gt [avl_list_simps]:
  "sorted_wrt (<) (xs @ a # ys) \<Longrightarrow> a < x \<Longrightarrow> ins_list x (xs @ a # ys) = xs @ a # ins_list x ys"
  by (induction xs) (auto simp: sorted_wrt_append)

lemma ins_list_app_eq [avl_list_simps]:
  "sorted_wrt (<) (xs @ a # ys) \<Longrightarrow> ins_list a (xs @ a # ys) = xs @ a # ys"
  by (rule ins_list_mem) auto

lemma sorted_wrt_app_mid [avl_list_simps]:
  "sorted_wrt (<) (xs @ (a::'a::linorder) # ys) \<longleftrightarrow>
     sorted_wrt (<) xs \<and> sorted_wrt (<) ys \<and> (\<forall>x\<in>set xs. x < a) \<and> (\<forall>y\<in>set ys. a < y)"
  by (auto simp: sorted_wrt_append dest: order.strict_trans)

lemma py_split_Cons_ne: "py_split c xs \<noteq> []"
  by (induction xs) (auto split: list.splits)

lemma length_py_split: "length (py_split c s) = count_list s c + 1"
  by (induction s) (auto simp: py_split_Cons_ne split: list.splits)

lemma py_join_Cons: "ws \<noteq> [] \<Longrightarrow> py_join sep (w # ws) = w @ sep @ py_join sep ws"
  by (cases ws) auto

lemma py_join_split:
  "py_join sep (py_split c s) = concat (map (\<lambda>x. if x = c then sep else [x]) s)"
proof (induction s)
  case (Cons x xs)
  show ?case
  proof (cases "x = c")
    case True
    with Cons show ?thesis by (simp add: py_join_Cons py_split_Cons_ne)
  next
    case False
    then obtain w ws where "py_split c xs = w # ws"
      using py_split_Cons_ne by (cases "py_split c xs") auto
    with Cons False show ?thesis by (cases ws) auto
  qed
qed simp

lemma of_char_digit: "(k::nat) < 10 \<Longrightarrow> of_char (char_of (48 + k) :: char) = 48 + k"
  by (simp add: of_char_of)

lemma newline_ne_digit: "(k::nat) < 10 \<Longrightarrow> newline \<noteq> char_of (48 + k)"
proof
  assume k: "k < 10" and e: "newline = char_of (48 + k)"
  have "(of_char newline :: nat) = of_char (char_of (48 + k) :: char)" by (simp only: e)
  with k show False by (simp add: of_char_digit newline_def)
qed

lemma newline_notin_nat_str: "newline \<notin> set (nat_str n)"
proof (induction n rule: nat_str.induct)
  case (1 n)
  then show ?case by (subst nat_str.simps) (auto simp: newline_ne_digit)
qed

lemma newline_notin_int_str [simp]: "newline \<notin> set (int_str i)"
proof -
  have "newline \<noteq> CHR ''-''" by (simp add: newline_def)
  then show ?thesis by (simp add: int_str_def newline_notin_nat_str)
qed

end
