(* ===== verification/AVL_Spec.thy ===== *)
theory AVL_Spec
  imports AVL_Prelude
begin

text \<open>
  The abstract specification the Python class is measured against: binary search trees
  of the library type \<open>'a tree\<close> (keys only, heights recomputed), the AVL balance
  predicate, the two single rotations, the textbook rebalancing of a node whose one
  subtree has grown by one level, and the textbook AVL insertion built from them.
  Lemmas: rotations keep the in-order sequence; insertion keeps balance, grows the height
  by at most one and inserts into the sorted key list; search is membership on search
  trees.
\<close>

subsection \<open>Search and balance\<close>

fun isin :: "'a::linorder tree \<Rightarrow> 'a \<Rightarrow> bool" where
  "isin Leaf x = False"
| "isin (Node l a r) x = (if x < a then isin l x else if a < x then isin r x else True)"

fun avl :: "'a tree \<Rightarrow> bool" where
  "avl Leaf = True"
| "avl (Node l a r) =
     (height r \<le> height l + 1 \<and> height l \<le> height r + 1 \<and> avl l \<and> avl r)"

subsection \<open>Rotations and rebalancing\<close>

fun rotR :: "'a tree \<Rightarrow> 'a tree" where
  "rotR (Node (Node A a B) c C) = Node A a (Node B c C)"
| "rotR t = t"

fun rotL :: "'a tree \<Rightarrow> 'a tree" where
  "rotL (Node A a (Node B c C)) = Node (Node A a B) c C"
| "rotL t = t"

definition balL :: "'a tree \<Rightarrow> 'a \<Rightarrow> 'a tree \<Rightarrow> 'a tree" where
  "balL l a r =
     (if height l = height r + 2 then
        (if height (left l) < height (right l) then rotR (Node (rotL l) a r)
         else rotR (Node l a r))
      else Node l a r)"

definition balR :: "'a tree \<Rightarrow> 'a \<Rightarrow> 'a tree \<Rightarrow> 'a tree" where
  "balR l a r =
     (if height r = height l + 2 then
        (if height (right r) < height (left r) then rotL (Node l a (rotR r))
         else rotL (Node l a r))
      else Node l a r)"

fun ins_spec :: "'a::linorder \<Rightarrow> 'a tree \<Rightarrow> 'a tree" where
  "ins_spec x Leaf = Node Leaf x Leaf"
| "ins_spec x (Node l a r) =
     (if x < a then balL (ins_spec x l) a r
      else if a < x then balR l a (ins_spec x r)
      else Node l a r)"

subsection \<open>In-order sequence\<close>

lemma inorder_rotR [simp]: "inorder (rotR t) = inorder t"
  by (induction t rule: rotR.induct) auto

lemma inorder_rotL [simp]: "inorder (rotL t) = inorder t"
  by (induction t rule: rotL.induct) auto

lemma inorder_balL: "inorder (balL l a r) = inorder l @ a # inorder r"
  by (simp add: balL_def)

lemma inorder_balR: "inorder (balR l a r) = inorder l @ a # inorder r"
  by (simp add: balR_def)

lemma inorder_ins_spec:
  "sorted_wrt (<) (inorder t) \<Longrightarrow> inorder (ins_spec x t) = ins_list x (inorder t)"
  by (induction t) (auto simp: inorder_balL inorder_balR avl_list_simps)

lemma bst_ins_spec: "bst t \<Longrightarrow> bst (ins_spec x t)"
  by (simp add: bst_iff_sorted_wrt_less inorder_ins_spec)

lemma set_tree_ins_spec: "bst t \<Longrightarrow> set_tree (ins_spec x t) = insert x (set_tree t)"
  by (simp add: bst_iff_sorted_wrt_less inorder_ins_spec flip: set_inorder)

lemma isin_set_tree: "bst t \<Longrightarrow> isin t x \<longleftrightarrow> x \<in> set_tree t"
  by (induction t) auto

subsection \<open>Balance\<close>

lemma avl_balL:
  assumes "avl l" "avl r" "height r \<le> height l + 1" "height l \<le> height r + 2"
  shows "avl (balL l a r)"
proof (cases "height l = height r + 2")
  case True
  then obtain A b B where l: "l = Node A b B" by (cases l) auto
  show ?thesis
  proof (cases "height A < height B")
    case True
    then obtain B1 c B2 where "B = Node B1 c B2" by (cases B) auto
    with l True \<open>height l = height r + 2\<close> assms show ?thesis
      by (auto simp: balL_def max_def split: if_splits)
  next
    case False
    with l \<open>height l = height r + 2\<close> assms show ?thesis
      by (auto simp: balL_def max_def split: if_splits)
  qed
next
  case False
  with assms show ?thesis by (simp add: balL_def)
qed

lemma avl_balR:
  assumes "avl l" "avl r" "height l \<le> height r + 1" "height r \<le> height l + 2"
  shows "avl (balR l a r)"
proof (cases "height r = height l + 2")
  case True
  then obtain B c C where r: "r = Node B c C" by (cases r) auto
  show ?thesis
  proof (cases "height C < height B")
    case True
    then obtain B1 b B2 where "B = Node B1 b B2" by (cases B) auto
    with r True \<open>height r = height l + 2\<close> assms show ?thesis
      by (auto simp: balR_def max_def split: if_splits)
  next
    case False
    with r \<open>height r = height l + 2\<close> assms show ?thesis
      by (auto simp: balR_def max_def split: if_splits)
  qed
next
  case False
  with assms show ?thesis by (simp add: balR_def)
qed

lemma avl_bal_choice:
  assumes "avl l" "avl r" "height l \<le> height r + 2" "height r \<le> height l + 2"
  shows "avl (if height l = height r + 2 then balL l a r else balR l a r)"
  using assms by (auto intro: avl_balL avl_balR)

lemma height_balL_plain:
  "height l \<noteq> height r + 2 \<Longrightarrow> height (balL l a r) = max (height l) (height r) + 1"
  by (simp add: balL_def)

lemma height_balR_plain:
  "height r \<noteq> height l + 2 \<Longrightarrow> height (balR l a r) = max (height l) (height r) + 1"
  by (simp add: balR_def)

lemma height_balL_rot:
  assumes "avl l" "height l = height r + 2"
  shows "height (balL l a r) \<in> {height r + 2, height r + 3}"
proof -
  obtain A b B where l: "l = Node A b B" using assms(2) by (cases l) auto
  show ?thesis
  proof (cases "height A < height B")
    case True
    then obtain B1 c B2 where "B = Node B1 c B2" by (cases B) auto
    with l True assms show ?thesis by (auto simp: balL_def max_def split: if_splits)
  next
    case False
    with l assms show ?thesis by (auto simp: balL_def max_def)
  qed
qed

lemma height_balR_rot:
  assumes "avl r" "height r = height l + 2"
  shows "height (balR l a r) \<in> {height l + 2, height l + 3}"
proof -
  obtain B c C where r: "r = Node B c C" using assms(2) by (cases r) auto
  show ?thesis
  proof (cases "height C < height B")
    case True
    then obtain B1 b B2 where "B = Node B1 b B2" by (cases B) auto
    with r True assms show ?thesis by (auto simp: balR_def max_def split: if_splits)
  next
    case False
    with r assms show ?thesis by (auto simp: balR_def max_def)
  qed
qed

lemmas height_bal_simps = height_balL_plain height_balR_plain

text \<open>Insertion keeps the balance and grows the height by at most one level; the two
  facts are proved together, since each is the other's induction hypothesis.\<close>

lemma avl_ins_spec_height:
  "avl t \<Longrightarrow> avl (ins_spec x t) \<and> height (ins_spec x t) \<in> {height t, height t + 1}"
proof (induction t)
  case Leaf
  then show ?case by simp
next
  case (Node l a r)
  consider (lt) "x < a" | (gt) "a < x" | (eq) "x = a" by fastforce
  then show ?case
  proof cases
    case lt
    let ?l' = "ins_spec x l"
    from Node have l': "avl ?l'" "height ?l' \<in> {height l, height l + 1}" by auto
    with Node.prems have "avl (balL ?l' a r)" by (auto intro!: avl_balL)
    moreover have "height (balL ?l' a r) \<in> {height (Node l a r), height (Node l a r) + 1}"
    proof (cases "height ?l' = height r + 2")
      case True
      with l' height_balL_rot [of ?l' r a] Node.prems show ?thesis by auto
    qed (use l' in \<open>auto simp: height_balL_plain\<close>)
    ultimately show ?thesis using lt by simp
  next
    case gt
    let ?r' = "ins_spec x r"
    from Node have r': "avl ?r'" "height ?r' \<in> {height r, height r + 1}" by auto
    with Node.prems have "avl (balR l a ?r')" by (auto intro!: avl_balR)
    moreover have "height (balR l a ?r') \<in> {height (Node l a r), height (Node l a r) + 1}"
    proof (cases "height ?r' = height l + 2")
      case True
      with r' height_balR_rot [of ?r' l a] Node.prems show ?thesis by auto
    qed (use r' in \<open>auto simp: height_balR_plain\<close>)
    ultimately show ?thesis using gt by auto
  next
    case eq
    with Node.prems show ?thesis by simp
  qed
qed

lemma ins_spec_isin: "avl t \<Longrightarrow> isin t x \<Longrightarrow> ins_spec x t = t"
  by (induction t) (auto simp: balL_def balR_def)

end
