(* ===== verification/AVL_Node.thy ===== *)
theory AVL_Node
  imports AVL_Spec
begin

text \<open>
  The node object of \<^verbatim>\<open>src/trees.py\<close>: class \<^verbatim>\<open>AVLTree\<close> with its fields
  \<^verbatim>\<open>data\<close>, \<^verbatim>\<open>left\<close>, \<^verbatim>\<open>right\<close>, \<^verbatim>\<open>height\<close>, and the methods that read or
  restructure one node: \<^verbatim>\<open>skew\<close>, \<^verbatim>\<open>_recalc_height\<close>, \<^verbatim>\<open>_right_rotation\<close>,
  \<^verbatim>\<open>_left_rotation\<close>. A child field holds \<open>None\<close> or an object the node owns alone
  (no sharing, no cycles), so an object is a value and a mutating method returns the
  updated value. The abstraction \<open>tree_of\<close> forgets the stored heights; the lemmas show
  that each rotation implements the abstract rotation and keeps the stored heights right.
\<close>

subsection \<open>The node object\<close>

text \<open>\<open>AVLTree data left right height\<close>; \<open>data = None\<close> only in the empty root.
  The attribute \<^verbatim>\<open>root\<close>, written in \<^verbatim>\<open>__init__\<close> and never read, is left out.\<close>

datatype 'a avltree = AVLTree "'a option" "'a avltree option" "'a avltree option" int

text \<open>The object \<^verbatim>\<open>__init__\<close> starts from, before it inserts the dataset.\<close>

definition empty_node :: "'a avltree" where
  "empty_node = AVLTree None None None 0"

fun ht :: "'a avltree \<Rightarrow> int" where
  "ht (AVLTree _ _ _ h) = h"

text \<open>The idiom \<^verbatim>\<open>x.height if x is not None else 0\<close> on a child field.\<close>

fun node_height :: "'a avltree option \<Rightarrow> int" where
  "node_height None = 0"
| "node_height (Some t) = ht t"

fun skew :: "'a avltree \<Rightarrow> int" where
  "skew (AVLTree d l r h) = node_height r - node_height l"

fun recalc_height :: "'a avltree \<Rightarrow> 'a avltree" where
  "recalc_height (AVLTree d l r h) = AVLTree d l r (max (node_height l) (node_height r) + 1)"

text \<open>\<^verbatim>\<open>_right_rotation\<close>: the left child object \<open>L\<close> moves to the right; it takes the
  node's old right subtree and its own old right subtree \<open>old_pre\<close>; the node takes
  \<open>L\<close>'s left subtree; the two swap \<open>data\<close>; \<open>L\<close>'s height, then the node's, are
  recomputed.\<close>

fun right_rotation :: "'a avltree \<Rightarrow> 'a avltree" where
  "right_rotation (AVLTree d None r h) = AVLTree d None r h"
| "right_rotation (AVLTree d (Some (AVLTree ld ll old_pre lh)) r h) =
     recalc_height (AVLTree ld ll (Some (recalc_height (AVLTree d old_pre r lh))) h)"

text \<open>\<^verbatim>\<open>_left_rotation\<close>, the mirror image: the right child object \<open>R\<close> moves to the
  left with the node's old left subtree \<open>old_pre\<close> and its own old left subtree
  \<open>old_post\<close>; the node takes \<open>R\<close>'s right subtree; data swapped; heights recomputed.\<close>

fun left_rotation :: "'a avltree \<Rightarrow> 'a avltree" where
  "left_rotation (AVLTree d old_pre None h) = AVLTree d old_pre None h"
| "left_rotation (AVLTree d old_pre (Some (AVLTree rd old_post rr rh)) h) =
     recalc_height (AVLTree rd (Some (recalc_height (AVLTree d old_pre old_post rh))) rr h)"

text \<open>The balance condition of spec section 8, read through the code's own \<^verbatim>\<open>skew\<close>
  method: every object's skew is \<open>-1\<close>, \<open>0\<close> or \<open>1\<close>.\<close>

fun balanced_nodes :: "'a avltree \<Rightarrow> bool" where
  "balanced_nodes (AVLTree d l r h) =
     (skew (AVLTree d l r h) \<in> {-1, 0, 1} \<and>
      (case l of None \<Rightarrow> True | Some lt \<Rightarrow> balanced_nodes lt) \<and>
      (case r of None \<Rightarrow> True | Some rt \<Rightarrow> balanced_nodes rt))"

subsection \<open>Abstraction and well-formedness\<close>

fun tree_of :: "'a avltree \<Rightarrow> 'a tree" where
  "tree_of (AVLTree d l r h) =
     (case d of None \<Rightarrow> Leaf
      | Some a \<Rightarrow> Node (case l of None \<Rightarrow> Leaf | Some lt \<Rightarrow> tree_of lt) a
                       (case r of None \<Rightarrow> Leaf | Some rt \<Rightarrow> tree_of rt))"

definition tree_of_opt :: "'a avltree option \<Rightarrow> 'a tree" where
  "tree_of_opt c = (case c of None \<Rightarrow> Leaf | Some t \<Rightarrow> tree_of t)"

text \<open>Every object below the root holds a key and its stored height is one more than
  the larger stored height of its children.\<close>

fun nodes_ok :: "'a avltree \<Rightarrow> bool" where
  "nodes_ok (AVLTree d l r h) =
     (d \<noteq> None \<and> h = max (node_height l) (node_height r) + 1 \<and>
      (case l of None \<Rightarrow> True | Some lt \<Rightarrow> nodes_ok lt) \<and>
      (case r of None \<Rightarrow> True | Some rt \<Rightarrow> nodes_ok rt))"

definition nodes_ok_opt :: "'a avltree option \<Rightarrow> bool" where
  "nodes_ok_opt c = (case c of None \<Rightarrow> True | Some t \<Rightarrow> nodes_ok t)"

text \<open>A rotation recomputes the stored heights of the two objects it moves, so it only
  needs the rest of the node to be well-formed: \<open>top_ok\<close> ignores the node's own
  stored height (stale in the second step of a double rotation).\<close>

definition top_ok :: "'a avltree \<Rightarrow> bool" where
  "top_ok t = (case t of AVLTree d l r h \<Rightarrow> d \<noteq> None \<and> nodes_ok_opt l \<and> nodes_ok_opt r)"

lemma tree_of_opt_simps [simp]:
  "tree_of_opt None = Leaf" "tree_of_opt (Some t) = tree_of t"
  by (simp_all add: tree_of_opt_def)

lemma nodes_ok_opt_simps [simp]:
  "nodes_ok_opt None" "nodes_ok_opt (Some t) = nodes_ok t"
  by (simp_all add: nodes_ok_opt_def)

lemma tree_of_Some [simp]:
  "tree_of (AVLTree (Some a) l r h) = Node (tree_of_opt l) a (tree_of_opt r)"
  by (simp add: tree_of_opt_def split: option.splits)

lemma nodes_ok_AVLTree [simp]:
  "nodes_ok (AVLTree d l r h) \<longleftrightarrow>
     d \<noteq> None \<and> h = max (node_height l) (node_height r) + 1 \<and> nodes_ok_opt l \<and> nodes_ok_opt r"
  by (simp add: nodes_ok_opt_def split: option.splits)

declare tree_of.simps [simp del] nodes_ok.simps [simp del]

lemma ht_tree_of: "nodes_ok t \<Longrightarrow> ht t = int (height (tree_of t))"
proof (induction t rule: tree_of.induct)
  case (1 d l r h)
  then show ?case
    by (cases l; cases r) (auto simp: max_def)
qed

lemma node_height_tree_of:
  "nodes_ok_opt c \<Longrightarrow> node_height c = int (height (tree_of_opt c))"
  by (cases c) (auto simp: ht_tree_of)

lemma tree_of_Node_ex: "nodes_ok t \<Longrightarrow> \<exists>l a r. tree_of t = Node l a r"
  by (cases t) auto

lemma ht_pos: "nodes_ok t \<Longrightarrow> 1 \<le> ht t"
  using ht_tree_of [of t] tree_of_Node_ex [of t] by auto

subsection \<open>Rotations refine the abstract rotations\<close>

lemma top_ok_AVLTree [simp]:
  "top_ok (AVLTree d l r h) \<longleftrightarrow> d \<noteq> None \<and> nodes_ok_opt l \<and> nodes_ok_opt r"
  by (simp add: top_ok_def)

lemma right_rotation_top:
  "top_ok (AVLTree d (Some lt) r h) \<Longrightarrow>
     tree_of (right_rotation (AVLTree d (Some lt) r h)) = rotR (tree_of (AVLTree d (Some lt) r h)) \<and>
     nodes_ok (right_rotation (AVLTree d (Some lt) r h))"
  by (cases lt) auto

lemma left_rotation_top:
  "top_ok (AVLTree d l (Some rt) h) \<Longrightarrow>
     tree_of (left_rotation (AVLTree d l (Some rt) h)) = rotL (tree_of (AVLTree d l (Some rt) h)) \<and>
     nodes_ok (left_rotation (AVLTree d l (Some rt) h))"
  by (cases rt) auto

lemma skew_tree_of:
  "nodes_ok t \<Longrightarrow> skew t = int (height (right (tree_of t))) - int (height (left (tree_of t)))"
  by (cases t) (auto simp: node_height_tree_of)

lemma right_rotation_refines:
  "nodes_ok t \<Longrightarrow> tree_of (right_rotation t) = rotR (tree_of t) \<and> nodes_ok (right_rotation t)"
  by (induction t rule: right_rotation.induct) auto

lemma left_rotation_refines:
  "nodes_ok t \<Longrightarrow> tree_of (left_rotation t) = rotL (tree_of t) \<and> nodes_ok (left_rotation t)"
  by (induction t rule: left_rotation.induct) auto

subsection \<open>Properties of the node operations\<close>

text \<open>C7: \<^verbatim>\<open>_right_rotation\<close> on a well-formed node performs the abstract right
  rotation, keeps the in-order key sequence, and leaves every stored height correct.\<close>

theorem right_rotation_correct:
  assumes "nodes_ok t"
  shows "tree_of (right_rotation t) = rotR (tree_of t) \<and>
         inorder (tree_of (right_rotation t)) = inorder (tree_of t) \<and>
         nodes_ok (right_rotation t)"
  using right_rotation_refines [OF assms] by simp

theorem right_rotation_correct_witness:
  "nodes_ok (AVLTree (Some (2::int)) (Some (AVLTree (Some 1) None None 1)) None 2) \<and>
   tree_of (right_rotation (AVLTree (Some (2::int)) (Some (AVLTree (Some 1) None None 1)) None 2)) =
     Node Leaf 1 (Node Leaf 2 Leaf) \<and>
   nodes_ok (right_rotation (AVLTree (Some (2::int)) (Some (AVLTree (Some 1) None None 1)) None 2))"
  using right_rotation_correct [of "AVLTree (Some (2::int)) (Some (AVLTree (Some 1) None None 1)) None 2"]
  by simp

text \<open>C8: \<^verbatim>\<open>_left_rotation\<close> on a well-formed node performs the abstract left
  rotation, keeps the in-order key sequence, and leaves every stored height correct.\<close>

theorem left_rotation_correct:
  assumes "nodes_ok t"
  shows "tree_of (left_rotation t) = rotL (tree_of t) \<and>
         inorder (tree_of (left_rotation t)) = inorder (tree_of t) \<and>
         nodes_ok (left_rotation t)"
  using left_rotation_refines [OF assms] by simp

theorem left_rotation_correct_witness:
  "nodes_ok (AVLTree (Some (1::int)) None (Some (AVLTree (Some 2) None None 1)) 2) \<and>
   tree_of (left_rotation (AVLTree (Some (1::int)) None (Some (AVLTree (Some 2) None None 1)) 2)) =
     Node (Node Leaf 1 Leaf) 2 Leaf \<and>
   nodes_ok (left_rotation (AVLTree (Some (1::int)) None (Some (AVLTree (Some 2) None None 1)) 2))"
  using left_rotation_correct [of "AVLTree (Some (1::int)) None (Some (AVLTree (Some 2) None None 1)) 2"]
  by simp

text \<open>C9: on a node whose stored heights are correct, the code's \<^verbatim>\<open>skew\<close> is in
  \<open>{-1, 0, 1}\<close> at every object exactly when the abstract tree is AVL-balanced.\<close>

theorem balanced_nodes_iff_avl:
  "nodes_ok t \<Longrightarrow> balanced_nodes t \<longleftrightarrow> avl (tree_of t)"
proof (induction t rule: balanced_nodes.induct)
  case (1 d l r h)
  have kids: "nodes_ok_opt l" "nodes_ok_opt r" using "1.prems" by auto
  have "balanced_nodes (AVLTree d l r h) \<longleftrightarrow>
          skew (AVLTree d l r h) \<in> {-1, 0, 1} \<and>
          avl (tree_of_opt l) \<and> avl (tree_of_opt r)"
    using "1.IH" kids by (auto simp: nodes_ok_opt_def split: option.splits)
  with "1.prems" kids show ?case
    by (auto simp: node_height_tree_of)
qed

theorem balanced_nodes_iff_avl_witness:
  "nodes_ok (AVLTree (Some (1::int)) None (Some (AVLTree (Some 2) None (Some (AVLTree (Some 3) None None 1)) 2)) 3) \<and>
   \<not> balanced_nodes (AVLTree (Some (1::int)) None (Some (AVLTree (Some 2) None (Some (AVLTree (Some 3) None None 1)) 2)) 3) \<and>
   \<not> avl (tree_of (AVLTree (Some (1::int)) None (Some (AVLTree (Some 2) None (Some (AVLTree (Some 3) None None 1)) 2)) 3))"
  using balanced_nodes_iff_avl
    [of "AVLTree (Some (1::int)) None (Some (AVLTree (Some 2) None (Some (AVLTree (Some 3) None None 1)) 2)) 3"]
  by simp

end
