(* ===== verification/AVL_Insert.thy ===== *)
theory AVL_Insert
  imports AVL_Node
begin

text \<open>
  \<^verbatim>\<open>_balance_update\<close> and \<^verbatim>\<open>insert\<close> of \<^verbatim>\<open>src/trees.py\<close>. A method that can raise
  returns \<open>'a result\<close>: \<open>Inl AttributeError\<close> where the code would call a method on
  a child field that is \<open>None\<close>. The lemmas show that the rebalancing never raises on a
  node whose stored heights are correct, that on the nodes insertion produces it
  implements the abstract \<open>balL\<close>/\<open>balR\<close>, and that
  \<^verbatim>\<open>insert\<close> implements the abstract AVL insertion \<open>ins_spec\<close>, returning as its flag
  whether the key was new.
\<close>

subsection \<open>Rebalancing\<close>

text \<open>The two \<^verbatim>\<open>if\<close> blocks run in sequence (the second is not an \<^verbatim>\<open>elif\<close>): the
  skew is read again after the first block. One definition per block: the right-heavy
  block (lines 104--108) and the left-heavy block (lines 109--113). \<^verbatim>\<open>self.right.skew()\<close>
  and \<^verbatim>\<open>self.left.skew()\<close> raise when the child is \<open>None\<close>.\<close>

definition balance_right_heavy :: "'a avltree \<Rightarrow> 'a avltree result" where
  "balance_right_heavy t =
     (if skew t = 2 then
        (case t of AVLTree d l r h \<Rightarrow>
           (case r of None \<Rightarrow> Inl AttributeError
            | Some rt \<Rightarrow>
                Inr (left_rotation
                      (AVLTree d l (Some (if skew rt < 0 then right_rotation rt else rt)) h))))
      else Inr t)"

definition balance_left_heavy :: "'a avltree \<Rightarrow> 'a avltree result" where
  "balance_left_heavy t =
     (if skew t = -2 then
        (case t of AVLTree d l r h \<Rightarrow>
           (case l of None \<Rightarrow> Inl AttributeError
            | Some lt \<Rightarrow>
                Inr (right_rotation
                      (AVLTree d (Some (if 0 < skew lt then left_rotation lt else lt)) r h))))
      else Inr t)"

definition balance_update :: "'a avltree \<Rightarrow> 'a avltree result" where
  "balance_update t =
     (if skew t \<in> {0, 1, -1} then Inr t
      else
        (case balance_right_heavy t of
           Inl e \<Rightarrow> Inl e
         | Inr t1 \<Rightarrow> balance_left_heavy t1))"

subsection \<open>Insertion\<close>

text \<open>\<^verbatim>\<open>AVLTree([data])\<close> builds a fresh node and inserts \<open>data\<close> into it, which takes
  the first branch: the result is \<open>AVLTree (Some data) None None 1\<close>.\<close>

fun AVLTree_insert :: "'a::linorder \<Rightarrow> 'a avltree \<Rightarrow> ('a avltree \<times> bool) result" where
  "AVLTree_insert x (AVLTree d l r h) =
     (case d of
        None \<Rightarrow> Inr (AVLTree (Some x) l r 1, False)
      | Some a \<Rightarrow>
          if x < a then
            (case l of
               None \<Rightarrow>
                 (let height_increased = (r = None)
                  in Inr (AVLTree d (Some (AVLTree (Some x) None None 1)) r
                            (h + (if height_increased then 1 else 0)), True))
             | Some lt \<Rightarrow>
                 (let right_height = node_height r in
                  case AVLTree_insert x lt of
                    Inl e \<Rightarrow> Inl e
                  | Inr (lt', changed) \<Rightarrow>
                      if changed then
                        (case balance_update (AVLTree d (Some lt') r (max right_height (ht lt') + 1)) of
                           Inl e \<Rightarrow> Inl e
                         | Inr t' \<Rightarrow> Inr (t', True))
                      else Inr (AVLTree d (Some lt') r h, False)))
          else if a < x then
            (case r of
               None \<Rightarrow>
                 (let height_increased = (l = None)
                  in Inr (AVLTree d l (Some (AVLTree (Some x) None None 1))
                            (h + (if height_increased then 1 else 0)), True))
             | Some rt \<Rightarrow>
                 (let left_height = node_height l in
                  case AVLTree_insert x rt of
                    Inl e \<Rightarrow> Inl e
                  | Inr (rt', changed) \<Rightarrow>
                      if changed then
                        (case balance_update (AVLTree d l (Some rt') (max left_height (ht rt') + 1)) of
                           Inl e \<Rightarrow> Inl e
                         | Inr t' \<Rightarrow> Inr (t', True))
                      else Inr (AVLTree d l (Some rt') h, False)))
          else Inr (AVLTree d l r h, False))"

subsection \<open>The invariant of the public object\<close>

text \<open>The object the user holds is the empty node or a well-formed node; its abstract
  tree is an AVL-balanced search tree.\<close>

definition avl_invar :: "'a::linorder avltree \<Rightarrow> bool" where
  "avl_invar t \<longleftrightarrow> (t = empty_node \<or> nodes_ok t) \<and> avl (tree_of t) \<and> bst (tree_of t)"


subsection \<open>Rebalancing implements \<open>balL\<close> and \<open>balR\<close>\<close>

lemmas balance_update_defs = balance_update_def balance_right_heavy_def balance_left_heavy_def

lemma balance_update_cases:
  assumes ok: "nodes_ok t" and t: "tree_of t = Node L a R"
    and bal: "avl L" "avl R" "height L \<le> height R + 2" "height R \<le> height L + 2"
  shows "\<exists>t'. balance_update t = Inr t' \<and> nodes_ok t' \<and>
           tree_of t' = (if height L = height R + 2 then balL L a R else balR L a R)"
proof -
  obtain l r h where tt: "t = AVLTree (Some a) l r h" and L: "tree_of_opt l = L" and R: "tree_of_opt r = R"
    using ok t by (cases t) (auto split: option.splits)
  have lr: "nodes_ok_opt l" "nodes_ok_opt r" using ok tt by auto
  have sk: "skew t = int (height R) - int (height L)"
    using skew_tree_of [OF ok] t by simp
  consider (left_heavy) "height L = height R + 2" | (right_heavy) "height R = height L + 2"
    | (balanced) "height R \<le> height L + 1" "height L \<le> height R + 1"
    using bal by linarith
  then show ?thesis
  proof cases
    case left_heavy
    then obtain lt where l: "l = Some lt" using L lr by (cases l) auto
    have lt: "nodes_ok lt" "tree_of lt = L" using l lr L by auto
    have sklt: "skew lt = int (height (right L)) - int (height (left L))"
      using skew_tree_of [OF lt(1)] lt(2) by simp
    let ?lt2 = "if 0 < skew lt then left_rotation lt else lt"
    have lt2: "nodes_ok ?lt2"
      "tree_of ?lt2 = (if height (left L) < height (right L) then rotL L else L)"
      using lt sklt left_rotation_refines [OF lt(1)] by auto
    have "top_ok (AVLTree (Some a) (Some ?lt2) r h)" using lt2 lr by simp
    note rot = right_rotation_top [OF this]
    have "balance_update t = Inr (right_rotation (AVLTree (Some a) (Some ?lt2) r h))"
      using left_heavy sk tt l by (simp add: balance_update_defs)
    with rot lt2 left_heavy R show ?thesis by (auto simp: balL_def)
  next
    case right_heavy
    then obtain rt where r: "r = Some rt" using R lr by (cases r) auto
    have rt: "nodes_ok rt" "tree_of rt = R" using r lr R by auto
    have skrt: "skew rt = int (height (right R)) - int (height (left R))"
      using skew_tree_of [OF rt(1)] rt(2) by simp
    let ?rt2 = "if skew rt < 0 then right_rotation rt else rt"
    have rt2: "nodes_ok ?rt2"
      "tree_of ?rt2 = (if height (right R) < height (left R) then rotR R else R)"
      using rt skrt right_rotation_refines [OF rt(1)] by auto
    have "top_ok (AVLTree (Some a) l (Some ?rt2) h)" using rt2 lr by simp
    note rot = left_rotation_top [OF this]
    let ?t1 = "left_rotation (AVLTree (Some a) l (Some ?rt2) h)"
    have t1: "nodes_ok ?t1" "tree_of ?t1 = balR L a R"
      using rot rt2 right_heavy L by (auto simp: balR_def)
    have "avl (balR L a R)" using bal right_heavy by (intro avl_balR) auto
    then have "skew ?t1 \<noteq> -2"
      using skew_tree_of [OF t1(1)] t1(2) by (cases "balR L a R") auto
    then have "balance_update t = Inr ?t1"
      using right_heavy sk tt r by (simp add: balance_update_defs)
    with t1 right_heavy show ?thesis by auto
  next
    case balanced
    then have "balance_update t = Inr t" using sk by (auto simp: balance_update_defs)
    with ok t balanced show ?thesis by (auto simp: balL_def balR_def)
  qed
qed

lemma balance_update_balL:
  assumes "nodes_ok t" "tree_of t = Node L a R" "avl L" "avl R"
    "height L \<le> height R + 2" "height R \<le> height L + 1"
  shows "\<exists>t'. balance_update t = Inr t' \<and> nodes_ok t' \<and> tree_of t' = balL L a R"
  using balance_update_cases [OF assms(1-5)] assms(6) by (auto simp: balL_def balR_def)

lemma balance_update_balR:
  assumes "nodes_ok t" "tree_of t = Node L a R" "avl L" "avl R"
    "height R \<le> height L + 2" "height L \<le> height R + 1"
  shows "\<exists>t'. balance_update t = Inr t' \<and> nodes_ok t' \<and> tree_of t' = balR L a R"
proof -
  have "height L \<le> height R + 2" using assms(6) by simp
  from balance_update_cases [OF assms(1-4) this assms(5)] assms(6) show ?thesis
    by (auto simp: balL_def balR_def)
qed

text \<open>Each block of \<^verbatim>\<open>_balance_update\<close> on a node with correct stored heights: the
  child it dereferences exists, so it does not raise, and it keeps the heights correct and
  the keys in order, whatever the balance.\<close>

lemma balance_right_heavy_ok:
  assumes ok: "nodes_ok t"
  shows "\<exists>t1. balance_right_heavy t = Inr t1 \<and> nodes_ok t1 \<and> inorder (tree_of t1) = inorder (tree_of t)"
proof (cases "skew t = 2")
  case False
  with ok show ?thesis by (simp add: balance_right_heavy_def)
next
  case True
  obtain d l r h where tt: "t = AVLTree d l r h" by (cases t)
  have lr: "d \<noteq> None" "nodes_ok_opt l" "nodes_ok_opt r" using ok tt by auto
  have "0 \<le> node_height l" using lr(2) by (cases l) (auto dest: ht_pos)
  with True tt obtain rt where r: "r = Some rt" by (cases r) auto
  let ?rt2 = "if skew rt < 0 then right_rotation rt else rt"
  have rt2: "nodes_ok ?rt2" "inorder (tree_of ?rt2) = inorder (tree_of rt)"
    using lr r right_rotation_refines [of rt] by auto
  have "top_ok (AVLTree d l (Some ?rt2) h)" using rt2 lr by (simp add: top_ok_def)
  note rot = left_rotation_top [OF this]
  have "balance_right_heavy t = Inr (left_rotation (AVLTree d l (Some ?rt2) h))"
    using True tt r by (simp add: balance_right_heavy_def)
  with rot rt2 tt r lr show ?thesis by (auto simp: top_ok_def)
qed

lemma balance_left_heavy_ok:
  assumes ok: "nodes_ok t"
  shows "\<exists>t1. balance_left_heavy t = Inr t1 \<and> nodes_ok t1 \<and> inorder (tree_of t1) = inorder (tree_of t)"
proof (cases "skew t = -2")
  case False
  with ok show ?thesis by (simp add: balance_left_heavy_def)
next
  case True
  obtain d l r h where tt: "t = AVLTree d l r h" by (cases t)
  have lr: "d \<noteq> None" "nodes_ok_opt l" "nodes_ok_opt r" using ok tt by auto
  have "0 \<le> node_height r" using lr(3) by (cases r) (auto dest: ht_pos)
  with True tt obtain lt where l: "l = Some lt" by (cases l) auto
  let ?lt2 = "if 0 < skew lt then left_rotation lt else lt"
  have lt2: "nodes_ok ?lt2" "inorder (tree_of ?lt2) = inorder (tree_of lt)"
    using lr l left_rotation_refines [of lt] by auto
  have "top_ok (AVLTree d (Some ?lt2) r h)" using lt2 lr by (simp add: top_ok_def)
  note rot = right_rotation_top [OF this]
  have "balance_left_heavy t = Inr (right_rotation (AVLTree d (Some ?lt2) r h))"
    using True tt l by (simp add: balance_left_heavy_def)
  with rot lt2 tt l lr show ?thesis by (auto simp: top_ok_def)
qed

subsection \<open>Insertion implements \<open>ins_spec\<close>\<close>

lemma AVLTree_insert_present:
  "nodes_ok t \<Longrightarrow> isin (tree_of t) x \<Longrightarrow> AVLTree_insert x t = Inr (t, False)"
proof (induction x t rule: AVLTree_insert.induct)
  case (1 x d l r h)
  then obtain a where d: "d = Some a" by auto
  consider (lt) "x < a" | (gt) "a < x" | (eq) "x = a" by fastforce
  then show ?case
  proof cases
    case lt
    with "1.prems" d obtain lt where "l = Some lt" by (cases l) auto
    with "1" d lt show ?thesis by auto
  next
    case gt
    then have "\<not> x < a" by simp
    with gt "1.prems" d obtain rt where "r = Some rt" by (cases r) auto
    with "1" d gt \<open>\<not> x < a\<close> show ?thesis by auto
  next
    case eq
    with d show ?thesis by simp
  qed
qed

lemma insert_new_leaf_height:
  "nodes_ok_opt c \<Longrightarrow>
     max 0 (node_height c) + 1 + (if c = None then 1 else 0) = max 1 (node_height c) + 1"
  by (cases c) (auto dest: ht_pos)

lemma AVLTree_insert_refines:
  "nodes_ok t \<Longrightarrow> avl (tree_of t) \<Longrightarrow>
     \<exists>t'. AVLTree_insert x t = Inr (t', \<not> isin (tree_of t) x) \<and> nodes_ok t' \<and>
          tree_of t' = ins_spec x (tree_of t)"
proof (induction x t rule: AVLTree_insert.induct)
  case (1 x d l r h)
  then obtain a where d: "d = Some a" by auto
  let ?L = "tree_of_opt l" and ?R = "tree_of_opt r"
  have ok: "nodes_ok_opt l" "nodes_ok_opt r" "h = max (node_height l) (node_height r) + 1"
    and avl: "avl ?L" "avl ?R" "height ?R \<le> height ?L + 1" "height ?L \<le> height ?R + 1"
    using "1.prems" d by auto
  consider (lt) "x < a" | (gt) "a < x" | (eq) "x = a" by fastforce
  then show ?case
  proof cases
    case lt
    show ?thesis
    proof (cases l)
      case None
      then show ?thesis
        using d lt ok insert_new_leaf_height [of r] by (auto simp: balL_def)
    next
      case (Some lt0)
      from "1.IH"(1) [OF d lt Some refl] "1.prems" Some d obtain lt' where
        ins: "AVLTree_insert x lt0 = Inr (lt', \<not> isin (tree_of lt0) x)" and
        lt': "nodes_ok lt'" "tree_of lt' = ins_spec x (tree_of lt0)" by auto
      show ?thesis
      proof (cases "isin (tree_of lt0) x")
        case True
        with ins AVLTree_insert_present [of lt0 x] ok Some have "lt' = lt0" by auto
        with True ins "1.prems" d lt Some avl show ?thesis
          by (auto simp: ins_spec_isin balL_def)
      next
        case False
        let ?t = "AVLTree d (Some lt') r (max (node_height r) (ht lt') + 1)"
        have hs: "avl (ins_spec x ?L)" "height (ins_spec x ?L) \<in> {height ?L, height ?L + 1}"
          using avl_ins_spec_height [OF avl(1)] by auto
        have "\<exists>t'. balance_update ?t = Inr t' \<and> nodes_ok t' \<and> tree_of t' = balL (ins_spec x ?L) a ?R"
          using ok lt' hs avl Some d by (intro balance_update_balL) auto
        with ins False d lt Some show ?thesis by auto
      qed
    qed
  next
    case gt
    show ?thesis
    proof (cases r)
      case None
      then show ?thesis
        using d gt ok insert_new_leaf_height [of l] by (auto simp: balR_def max.commute)
    next
      case (Some rt0)
      have nlt: "\<not> x < a" using gt by simp
      from "1.IH"(2) [OF d nlt gt Some refl] "1.prems" Some d gt obtain rt' where
        ins: "AVLTree_insert x rt0 = Inr (rt', \<not> isin (tree_of rt0) x)" and
        rt': "nodes_ok rt'" "tree_of rt' = ins_spec x (tree_of rt0)" by auto
      show ?thesis
      proof (cases "isin (tree_of rt0) x")
        case True
        with ins AVLTree_insert_present [of rt0 x] ok Some have "rt' = rt0" by auto
        with True ins "1.prems" d gt Some avl show ?thesis
          by (auto simp: ins_spec_isin balR_def)
      next
        case False
        let ?t = "AVLTree d l (Some rt') (max (node_height l) (ht rt') + 1)"
        have hs: "avl (ins_spec x ?R)" "height (ins_spec x ?R) \<in> {height ?R, height ?R + 1}"
          using avl_ins_spec_height [OF avl(2)] by auto
        have "\<exists>t'. balance_update ?t = Inr t' \<and> nodes_ok t' \<and> tree_of t' = balR ?L a (ins_spec x ?R)"
          using ok rt' hs avl Some d by (intro balance_update_balR) (auto simp: max.commute)
        with ins False d gt Some show ?thesis by auto
      qed
    qed
  next
    case eq
    with "1.prems" d show ?thesis by simp
  qed
qed

subsection \<open>Facts on the public object\<close>

lemma tree_of_empty_node [simp]: "tree_of empty_node = Leaf"
  by (simp add: empty_node_def tree_of.simps)

lemma AVLTree_insert_empty [simp]:
  "AVLTree_insert x empty_node = Inr (AVLTree (Some x) None None 1, False)"
  by (simp add: empty_node_def)

lemma nodes_ok_not_empty: "nodes_ok t \<Longrightarrow> t \<noteq> empty_node"
  by (auto simp: empty_node_def)

lemma ht_empty_node [simp]: "ht empty_node = 0"
  by (simp add: empty_node_def)

lemma AVLTree_insert_invar:
  assumes "avl_invar t"
  shows "\<exists>t'. AVLTree_insert x t = Inr (t', t \<noteq> empty_node \<and> x \<notin> set_tree (tree_of t)) \<and>
              avl_invar t' \<and> tree_of t' = ins_spec x (tree_of t)"
proof (cases "t = empty_node")
  case True
  then show ?thesis by (simp add: avl_invar_def)
next
  case False
  with assms have ok: "nodes_ok t" "avl (tree_of t)" "bst (tree_of t)"
    by (auto simp: avl_invar_def)
  then obtain t' where t': "AVLTree_insert x t = Inr (t', \<not> isin (tree_of t) x)"
    "nodes_ok t'" "tree_of t' = ins_spec x (tree_of t)"
    using AVLTree_insert_refines by blast
  have "avl (tree_of t')" using t'(3) avl_ins_spec_height [OF ok(2)] by simp
  moreover have "bst (tree_of t')" using t'(3) bst_ins_spec [OF ok(3)] by simp
  ultimately show ?thesis
    using t' False isin_set_tree [OF ok(3)] by (auto simp: avl_invar_def)
qed

subsection \<open>Properties of insertion\<close>

text \<open>C1: inserting into an AVL object never raises; the result is again an AVL object
  (stored heights correct, every skew in \<open>{-1, 0, 1}\<close>, search order) whose in-order key
  sequence is the old one with the key inserted in order (unchanged if present).\<close>

theorem AVLTree_insert_correct:
  assumes "avl_invar t"
  shows "\<exists>t' c. AVLTree_insert x t = Inr (t', c) \<and> avl_invar t' \<and>
                inorder (tree_of t') = ins_list x (inorder (tree_of t))"
proof -
  have "sorted_wrt (<) (inorder (tree_of t))"
    using assms by (simp add: avl_invar_def bst_iff_sorted_wrt_less)
  with AVLTree_insert_invar [OF assms, of x] show ?thesis
    by (auto simp: inorder_ins_spec)
qed

theorem AVLTree_insert_correct_witness:
  "avl_invar (AVLTree (Some (2::int)) (Some (AVLTree (Some 1) None None 1)) None 2) \<and>
   (\<exists>t' c. AVLTree_insert 3 (AVLTree (Some (2::int)) (Some (AVLTree (Some 1) None None 1)) None 2) = Inr (t', c) \<and> avl_invar t' \<and>
      inorder (tree_of t') = ins_list 3 (inorder (tree_of (AVLTree (Some (2::int)) (Some (AVLTree (Some 1) None None 1)) None 2))))"
proof -
  have inv: "avl_invar (AVLTree (Some (2::int)) (Some (AVLTree (Some 1) None None 1)) None 2)" by (simp add: avl_invar_def)
  show ?thesis using inv AVLTree_insert_correct [OF inv, of 3] by simp
qed

text \<open>C2: \<^verbatim>\<open>insert\<close> refines the textbook AVL insertion: the abstract tree of the
  result is \<open>ins_spec\<close> applied to the abstract tree of the argument.\<close>

theorem AVLTree_insert_refines_spec:
  assumes "avl_invar t" and "AVLTree_insert x t = Inr (t', c)"
  shows "tree_of t' = ins_spec x (tree_of t)"
  using AVLTree_insert_invar [OF assms(1), of x] assms(2) by auto

theorem AVLTree_insert_refines_spec_witness:
  "avl_invar (AVLTree (Some (2::int)) (Some (AVLTree (Some 1) None None 1)) None 2) \<and> AVLTree_insert 3 (AVLTree (Some (2::int)) (Some (AVLTree (Some 1) None None 1)) None 2) = Inr (AVLTree (Some (2::int)) (Some (AVLTree (Some 1) None None 1)) (Some (AVLTree (Some 3) None None 1)) 2, True) \<and>
   tree_of (AVLTree (Some (2::int)) (Some (AVLTree (Some 1) None None 1)) (Some (AVLTree (Some 3) None None 1)) 2) = ins_spec 3 (tree_of (AVLTree (Some (2::int)) (Some (AVLTree (Some 1) None None 1)) None 2))"
proof -
  have inv: "avl_invar (AVLTree (Some (2::int)) (Some (AVLTree (Some 1) None None 1)) None 2)" by (simp add: avl_invar_def)
  have ins: "AVLTree_insert 3 (AVLTree (Some (2::int)) (Some (AVLTree (Some 1) None None 1)) None 2) = Inr (AVLTree (Some (2::int)) (Some (AVLTree (Some 1) None None 1)) (Some (AVLTree (Some 3) None None 1)) 2, True)" by (simp add: balance_update_defs)
  show ?thesis using inv ins AVLTree_insert_refines_spec [OF inv ins] by simp
qed

text \<open>C3: the value \<^verbatim>\<open>insert\<close> returns is \<open>True\<close> exactly when the object was
  not empty and the key was not yet stored; the first insertion into the empty object
  returns \<open>False\<close> although it stores the key.\<close>

theorem AVLTree_insert_flag:
  assumes "avl_invar t" and "AVLTree_insert x t = Inr (t', c)"
  shows "c \<longleftrightarrow> t \<noteq> empty_node \<and> x \<notin> set_tree (tree_of t)"
  using AVLTree_insert_invar [OF assms(1), of x] assms(2) by auto

theorem AVLTree_insert_flag_witness:
  "avl_invar (AVLTree (Some (2::int)) (Some (AVLTree (Some 1) None None 1)) None 2) \<and> AVLTree_insert 3 (AVLTree (Some (2::int)) (Some (AVLTree (Some 1) None None 1)) None 2) = Inr (AVLTree (Some (2::int)) (Some (AVLTree (Some 1) None None 1)) (Some (AVLTree (Some 3) None None 1)) 2, True) \<and>
   (AVLTree (Some (2::int)) (Some (AVLTree (Some 1) None None 1)) None 2) \<noteq> empty_node \<and> 3 \<notin> set_tree (tree_of (AVLTree (Some (2::int)) (Some (AVLTree (Some 1) None None 1)) None 2))"
proof -
  have inv: "avl_invar (AVLTree (Some (2::int)) (Some (AVLTree (Some 1) None None 1)) None 2)" by (simp add: avl_invar_def)
  have ins: "AVLTree_insert 3 (AVLTree (Some (2::int)) (Some (AVLTree (Some 1) None None 1)) None 2) = Inr (AVLTree (Some (2::int)) (Some (AVLTree (Some 1) None None 1)) (Some (AVLTree (Some 3) None None 1)) 2, True)" by (simp add: balance_update_defs)
  show ?thesis using inv ins AVLTree_insert_flag [OF inv ins] by simp
qed

text \<open>C4: inserting a key that is already stored returns \<open>False\<close> and leaves the object
  exactly as it was: no field of any node changes.\<close>

theorem AVLTree_insert_duplicate:
  assumes "avl_invar t" and "x \<in> set_tree (tree_of t)"
  shows "AVLTree_insert x t = Inr (t, False)"
proof -
  have "t \<noteq> empty_node" using assms(2) by auto
  with assms(1) have "nodes_ok t" "bst (tree_of t)" by (auto simp: avl_invar_def)
  with assms(2) show ?thesis
    by (simp add: AVLTree_insert_present isin_set_tree)
qed

theorem AVLTree_insert_duplicate_witness:
  "avl_invar (AVLTree (Some (2::int)) (Some (AVLTree (Some 1) None None 1)) None 2) \<and> 1 \<in> set_tree (tree_of (AVLTree (Some (2::int)) (Some (AVLTree (Some 1) None None 1)) None 2)) \<and>
   AVLTree_insert 1 (AVLTree (Some (2::int)) (Some (AVLTree (Some 1) None None 1)) None 2) = Inr (AVLTree (Some (2::int)) (Some (AVLTree (Some 1) None None 1)) None 2, False)"
proof -
  have inv: "avl_invar (AVLTree (Some (2::int)) (Some (AVLTree (Some 1) None None 1)) None 2)" by (simp add: avl_invar_def)
  have mem: "1 \<in> set_tree (tree_of (AVLTree (Some (2::int)) (Some (AVLTree (Some 1) None None 1)) None 2))" by simp
  show ?thesis using inv mem AVLTree_insert_duplicate [OF inv mem] by simp
qed

text \<open>C5: \<^verbatim>\<open>_balance_update\<close> on a node with correct stored heights, balanced
  subtrees, and subtree heights at most two apart never raises, and returns a balanced
  node with correct stored heights and the same in-order key sequence.\<close>

theorem balance_update_restores:
  assumes "nodes_ok t" "tree_of t = Node L a R" "avl L" "avl R"
    "height L \<le> height R + 2" "height R \<le> height L + 2"
  shows "\<exists>t'. balance_update t = Inr t' \<and> nodes_ok t' \<and> avl (tree_of t') \<and>
              inorder (tree_of t') = inorder (tree_of t)"
proof -
  obtain t' where t': "balance_update t = Inr t'" "nodes_ok t'"
    "tree_of t' = (if height L = height R + 2 then balL L a R else balR L a R)"
    using balance_update_cases [OF assms] by blast
  have "avl (tree_of t')" using avl_bal_choice [OF assms(3-6)] t'(3) by simp
  with t' assms(2) show ?thesis by (auto simp: inorder_balL inorder_balR)
qed

theorem balance_update_restores_witness:
  "nodes_ok (AVLTree (Some (3::int)) (Some (AVLTree (Some 1) None (Some (AVLTree (Some 2) None None 1)) 2)) None 3) \<and>
   tree_of (AVLTree (Some (3::int)) (Some (AVLTree (Some 1) None (Some (AVLTree (Some 2) None None 1)) 2)) None 3) = Node (Node Leaf 1 (Node Leaf 2 Leaf)) 3 Leaf \<and>
   avl (Node Leaf (1::int) (Node Leaf 2 Leaf)) \<and> avl (Leaf :: int tree) \<and>
   height (Node Leaf (1::int) (Node Leaf 2 Leaf)) \<le> height (Leaf :: int tree) + 2 \<and>
   height (Leaf :: int tree) \<le> height (Node Leaf (1::int) (Node Leaf 2 Leaf)) + 2 \<and>
   (\<exists>t'. balance_update (AVLTree (Some (3::int)) (Some (AVLTree (Some 1) None (Some (AVLTree (Some 2) None None 1)) 2)) None 3) = Inr t' \<and> nodes_ok t' \<and> avl (tree_of t') \<and>
      inorder (tree_of t') = inorder (tree_of (AVLTree (Some (3::int)) (Some (AVLTree (Some 1) None (Some (AVLTree (Some 2) None None 1)) 2)) None 3))) \<and>
   balance_update (AVLTree (Some (3::int)) (Some (AVLTree (Some 1) None (Some (AVLTree (Some 2) None None 1)) 2)) None 3) =
     Inr (AVLTree (Some 2) (Some (AVLTree (Some 1) None None 1)) (Some (AVLTree (Some 3) None None 1)) 2)"
proof -
  have ok: "nodes_ok (AVLTree (Some (3::int)) (Some (AVLTree (Some 1) None (Some (AVLTree (Some 2) None None 1)) 2)) None 3)" by simp
  have t: "tree_of (AVLTree (Some (3::int)) (Some (AVLTree (Some 1) None (Some (AVLTree (Some 2) None None 1)) 2)) None 3) = Node (Node Leaf 1 (Node Leaf 2 Leaf)) 3 Leaf" by simp
  have bu: "balance_update (AVLTree (Some (3::int)) (Some (AVLTree (Some 1) None (Some (AVLTree (Some 2) None None 1)) 2)) None 3) =
     Inr (AVLTree (Some 2) (Some (AVLTree (Some 1) None None 1)) (Some (AVLTree (Some 3) None None 1)) 2)"
    by (simp add: balance_update_defs)
  show ?thesis
    using ok t bu balance_update_restores [OF ok t] by simp
qed

text \<open>C6: the \<open>AttributeError\<close> branches of \<^verbatim>\<open>_balance_update\<close> are dead on every
  node whose stored heights are correct, balanced or not: a skew of 2 (of -2) means the
  right (left) child exists, also after the first block has rotated; the result has
  correct stored heights and the same in-order key sequence.\<close>

theorem balance_update_no_error:
  assumes "nodes_ok t"
  shows "\<exists>t'. balance_update t = Inr t' \<and> nodes_ok t' \<and> inorder (tree_of t') = inorder (tree_of t)"
proof -
  obtain t1 where t1: "balance_right_heavy t = Inr t1" "nodes_ok t1"
    "inorder (tree_of t1) = inorder (tree_of t)" using balance_right_heavy_ok [OF assms] by blast
  obtain t2 where t2: "balance_left_heavy t1 = Inr t2" "nodes_ok t2"
    "inorder (tree_of t2) = inorder (tree_of t1)" using balance_left_heavy_ok [OF t1(2)] by blast
  show ?thesis using assms t1 t2 by (simp add: balance_update_def)
qed

theorem balance_update_no_error_witness:
  "nodes_ok (AVLTree (Some (1::int)) None (Some (AVLTree (Some 3) (Some (AVLTree (Some 2) None None 1)) None 2)) 3) \<and>
   (\<exists>t'. balance_update (AVLTree (Some (1::int)) None (Some (AVLTree (Some 3) (Some (AVLTree (Some 2) None None 1)) None 2)) 3) = Inr t' \<and>
      nodes_ok t' \<and> inorder (tree_of t') = [1, 2, 3])"
proof -
  have ok: "nodes_ok (AVLTree (Some (1::int)) None (Some (AVLTree (Some 3) (Some (AVLTree (Some 2) None None 1)) None 2)) 3)"
    by (simp add: nodes_ok.simps)
  from balance_update_no_error [OF ok] ok show ?thesis by (simp add: tree_of.simps)
qed

end
