(* ===== verification/AVL_Heap.thy ===== *)
theory AVL_Heap
  imports AVL_Insert "HOL-Library.Monad_Syntax"
begin

text \<open>
  The objects of \<^verbatim>\<open>src/trees.py\<close> and the methods that rearrange them in place, over an
  explicit store. An object is a record of its four attributes; a child attribute holds
  the address of an object or \<open>None\<close>; the store maps addresses to objects.
  \<^verbatim>\<open>_recalc_height\<close>, \<^verbatim>\<open>_right_rotation\<close>, \<^verbatim>\<open>_left_rotation\<close>, \<^verbatim>\<open>skew\<close> and
  \<^verbatim>\<open>_balance_update\<close> are translated statement by statement, each attribute read and
  write going through the store, so aliasing is what the code makes of it. A result
  \<open>None\<close> means the code dereferences an address the store lacks. The representation
  relation \<open>heap_rep\<close> says which value of \<open>'a avltree\<close> the objects reachable from an
  address form, and over which set of addresses; it requires the reachable objects to be
  distinct (no sharing). The lemmas show that the rotations and the rebalancing keep the
  rebalanced node at its address, touch only the objects of its subtree, allocate
  nothing, and implement the value-level definitions of theories \<open>AVL_Node\<close> and
  \<open>AVL_Insert\<close>, the \<open>AttributeError\<close> branches included.
\<close>

record 'a obj =
  obj_data :: "'a option"
  obj_left :: "nat option"
  obj_right :: "nat option"
  obj_height :: int

type_synonym 'a heap = "nat \<rightharpoonup> 'a obj"

text \<open>\<^verbatim>\<open>x.height if x is not None else 0\<close> for a child attribute \<open>x\<close>.\<close>

definition child_height :: "'a heap \<Rightarrow> nat option \<Rightarrow> int option" where
  "child_height hp c = (case c of None \<Rightarrow> Some 0 | Some a \<Rightarrow> map_option obj_height (hp a))"

definition h_recalc_height :: "'a heap \<Rightarrow> nat \<Rightarrow> 'a heap option" where
  "h_recalc_height hp p =
     do {
       s \<leftarrow> hp p;
       left_height \<leftarrow> child_height hp (obj_left s);
       right_height \<leftarrow> child_height hp (obj_right s);
       Some (hp(p \<mapsto> s\<lparr>obj_height := max left_height right_height + 1\<rparr>))
     }"

definition h_right_rotation :: "'a heap \<Rightarrow> nat \<Rightarrow> 'a heap option" where
  "h_right_rotation hp p =
     do {
       s \<leftarrow> hp p;
       (case obj_left s of
          None \<Rightarrow> Some hp
        | Some lp \<Rightarrow>
            do {
              lo \<leftarrow> hp lp;
              let old_pre = obj_right lo;
              let hp = hp(lp \<mapsto> lo\<lparr>obj_right := obj_right s\<rparr>);
              s \<leftarrow> hp p;
              let hp = hp(p \<mapsto> s\<lparr>obj_right := obj_left s\<rparr>);
              s \<leftarrow> hp p; lp \<leftarrow> obj_left s; lo \<leftarrow> hp lp;
              let hp = hp(p \<mapsto> s\<lparr>obj_left := obj_left lo\<rparr>);
              s \<leftarrow> hp p; rp \<leftarrow> obj_right s; ro \<leftarrow> hp rp;
              let hp = hp(rp \<mapsto> ro\<lparr>obj_left := old_pre\<rparr>);
              s \<leftarrow> hp p; let temp = obj_data s; rp \<leftarrow> obj_right s; ro \<leftarrow> hp rp;
              let hp = hp(p \<mapsto> s\<lparr>obj_data := obj_data ro\<rparr>);
              s \<leftarrow> hp p; rp \<leftarrow> obj_right s; ro \<leftarrow> hp rp;
              let hp = hp(rp \<mapsto> ro\<lparr>obj_data := temp\<rparr>);
              s \<leftarrow> hp p; rp \<leftarrow> obj_right s;
              hp \<leftarrow> h_recalc_height hp rp;
              h_recalc_height hp p
            })
     }"

definition h_left_rotation :: "'a heap \<Rightarrow> nat \<Rightarrow> 'a heap option" where
  "h_left_rotation hp p =
     do {
       s \<leftarrow> hp p;
       (case obj_right s of
          None \<Rightarrow> Some hp
        | Some rp \<Rightarrow>
            do {
              let old_pre = obj_left s;
              ro \<leftarrow> hp rp;
              let old_post = obj_left ro;
              let hp = hp(p \<mapsto> s\<lparr>obj_left := obj_right s\<rparr>);
              s \<leftarrow> hp p; lp \<leftarrow> obj_left s; lo \<leftarrow> hp lp;
              let hp = hp(lp \<mapsto> lo\<lparr>obj_left := old_pre\<rparr>);
              s \<leftarrow> hp p; lp \<leftarrow> obj_left s; lo \<leftarrow> hp lp;
              let hp = hp(p \<mapsto> s\<lparr>obj_right := obj_right lo\<rparr>);
              s \<leftarrow> hp p; lp \<leftarrow> obj_left s; lo \<leftarrow> hp lp;
              let hp = hp(lp \<mapsto> lo\<lparr>obj_right := old_post\<rparr>);
              s \<leftarrow> hp p; let temp = obj_data s; lp \<leftarrow> obj_left s; lo \<leftarrow> hp lp;
              let hp = hp(p \<mapsto> s\<lparr>obj_data := obj_data lo\<rparr>);
              s \<leftarrow> hp p; lp \<leftarrow> obj_left s; lo \<leftarrow> hp lp;
              let hp = hp(lp \<mapsto> lo\<lparr>obj_data := temp\<rparr>);
              s \<leftarrow> hp p; lp \<leftarrow> obj_left s;
              hp \<leftarrow> h_recalc_height hp lp;
              h_recalc_height hp p
            })
     }"

text \<open>\<^verbatim>\<open>skew\<close> through the store.\<close>

definition h_skew :: "'a heap \<Rightarrow> nat \<Rightarrow> int option" where
  "h_skew hp p =
     do {
       s \<leftarrow> hp p;
       right_height \<leftarrow> child_height hp (obj_right s);
       left_height \<leftarrow> child_height hp (obj_left s);
       Some (right_height - left_height)
     }"

text \<open>\<^verbatim>\<open>_balance_update\<close> through the store, one definition per block of the code:
  the right-heavy block (lines 104--108) and the left-heavy block (lines 109--113), each
  re-reading \<^verbatim>\<open>self.skew()\<close> as the code does. The \<open>AttributeError\<close> of
  \<^verbatim>\<open>self.right.skew()\<close> and \<^verbatim>\<open>self.left.skew()\<close> on a missing child is \<open>Inl\<close>.\<close>

definition h_balance_right_heavy :: "'a heap \<Rightarrow> nat \<Rightarrow> 'a heap result option" where
  "h_balance_right_heavy hp p =
     do {
       sk \<leftarrow> h_skew hp p;
       if sk = 2 then
         do {
           s \<leftarrow> hp p;
           (case obj_right s of
              None \<Rightarrow> Some (Inl AttributeError)
            | Some rp \<Rightarrow>
                do {
                  rsk \<leftarrow> h_skew hp rp;
                  hp \<leftarrow> (if rsk < 0 then h_right_rotation hp rp else Some hp);
                  hp \<leftarrow> h_left_rotation hp p;
                  Some (Inr hp)
                })
         }
       else Some (Inr hp)
     }"

definition h_balance_left_heavy :: "'a heap \<Rightarrow> nat \<Rightarrow> 'a heap result option" where
  "h_balance_left_heavy hp p =
     do {
       sk \<leftarrow> h_skew hp p;
       if sk = -2 then
         do {
           s \<leftarrow> hp p;
           (case obj_left s of
              None \<Rightarrow> Some (Inl AttributeError)
            | Some lp \<Rightarrow>
                do {
                  lsk \<leftarrow> h_skew hp lp;
                  hp \<leftarrow> (if 0 < lsk then h_left_rotation hp lp else Some hp);
                  hp \<leftarrow> h_right_rotation hp p;
                  Some (Inr hp)
                })
         }
       else Some (Inr hp)
     }"

definition h_balance_update :: "'a heap \<Rightarrow> nat \<Rightarrow> 'a heap result option" where
  "h_balance_update hp p =
     do {
       sk \<leftarrow> h_skew hp p;
       if sk \<in> {0, 1, -1} then Some (Inr hp)
       else do {
         r1 \<leftarrow> h_balance_right_heavy hp p;
         (case r1 of
            Inl e \<Rightarrow> Some (Inl e)
          | Inr hp \<Rightarrow> h_balance_left_heavy hp p)
       }
     }"

inductive heap_rep :: "'a heap \<Rightarrow> nat \<Rightarrow> 'a avltree \<Rightarrow> nat set \<Rightarrow> bool"
  and child_rep :: "'a heap \<Rightarrow> nat option \<Rightarrow> 'a avltree option \<Rightarrow> nat set \<Rightarrow> bool" where
  node: "hp p = Some s \<Longrightarrow> child_rep hp (obj_left s) l A \<Longrightarrow> child_rep hp (obj_right s) r B \<Longrightarrow>
         p \<notin> A \<Longrightarrow> p \<notin> B \<Longrightarrow> A \<inter> B = {} \<Longrightarrow>
         heap_rep hp p (AVLTree (obj_data s) l r (obj_height s)) (insert p (A \<union> B))"
| no_child: "child_rep hp None None {}"
| child: "heap_rep hp a t A \<Longrightarrow> child_rep hp (Some a) (Some t) A"

text \<open>How a result of the store-level code corresponds to a result of the value-level
  code: the same error, or a store in which the node at \<open>p\<close> forms the value over the
  same addresses, every other object unchanged.\<close>

definition res_rel :: "'a heap \<Rightarrow> nat \<Rightarrow> nat set \<Rightarrow> 'a avltree result \<Rightarrow> 'a heap result \<Rightarrow> bool" where
  "res_rel hp p S v r =
     (case v of
        Inl e \<Rightarrow> r = Inl e
      | Inr t' \<Rightarrow> (\<exists>hp'. r = Inr hp' \<and> heap_rep hp' p t' S \<and> (\<forall>q. q \<notin> S \<longrightarrow> hp' q = hp q)))"

text \<open>An executable reading of \<open>heap_rep\<close>, with fuel bounding the depth: it follows the
  child attributes from an address and returns the value and the addresses visited, or
  \<open>None\<close> when an object is missing, shared, or deeper than the fuel.\<close>

fun rep_of :: "nat \<Rightarrow> 'a heap \<Rightarrow> nat \<Rightarrow> ('a avltree \<times> nat set) option"
  and crep_of :: "nat \<Rightarrow> 'a heap \<Rightarrow> nat option \<Rightarrow> ('a avltree option \<times> nat set) option" where
  "rep_of 0 hp p = None"
| "rep_of (Suc f) hp p =
     (case hp p of
        None \<Rightarrow> None
      | Some s \<Rightarrow>
          (case (crep_of f hp (obj_left s), crep_of f hp (obj_right s)) of
             (Some (l, A), Some (r, B)) \<Rightarrow>
               if p \<notin> A \<and> p \<notin> B \<and> A \<inter> B = {}
               then Some (AVLTree (obj_data s) l r (obj_height s), insert p (A \<union> B)) else None
           | _ \<Rightarrow> None))"
| "crep_of f hp None = Some (None, {})"
| "crep_of f hp (Some a) = map_option (\<lambda>(t, A). (Some t, A)) (rep_of f hp a)"

lemma child_height_simps [simp]:
  "child_height hp None = Some 0" "child_height hp (Some a) = map_option obj_height (hp a)"
  by (simp_all add: child_height_def)

lemma restrict_eq_iff: "(f |` S = g |` S) \<longleftrightarrow> (\<forall>a\<in>S. f a = g a)"
  by (auto simp: restrict_map_def fun_eq_iff)

lemma rep_frame_ball:
  "heap_rep hp p t S \<Longrightarrow> (\<forall>a\<in>S. hp' a = hp a) \<Longrightarrow> heap_rep hp' p t S"
  "child_rep hp c u S \<Longrightarrow> (\<forall>a\<in>S. hp' a = hp a) \<Longrightarrow> child_rep hp' c u S"
proof (induction rule: heap_rep_child_rep.inducts)
  case (node hp p s l A r B)
  then have "hp' p = Some s" by simp
  with node show ?case by (auto intro: heap_rep_child_rep.node)
qed (auto intro: heap_rep_child_rep.intros)

lemma rep_frame:
  "heap_rep hp p t S \<Longrightarrow> hp' |` S = hp |` S \<Longrightarrow> heap_rep hp' p t S"
  "child_rep hp c u S \<Longrightarrow> hp' |` S = hp |` S \<Longrightarrow> child_rep hp' c u S"
  by (simp_all add: restrict_eq_iff rep_frame_ball)

lemma rep_root:
  "heap_rep hp p t S \<Longrightarrow> p \<in> S \<and> (\<exists>s. hp p = Some s \<and> obj_height s = ht t)"
  by (induction rule: heap_rep.cases) auto

lemma child_height_rep:
  assumes "child_rep hp c u S" "hp' |` S = hp |` S"
  shows "child_height hp' c = Some (node_height u)"
  using assms(1)
proof (cases rule: child_rep.cases)
  case no_child
  then show ?thesis by (simp add: child_height_def)
next
  case (child a t)
  with rep_root [of hp a t S] assms(2) show ?thesis by (auto simp: child_height_def restrict_eq_iff)
qed

lemma child_rep_None_iff: "child_rep hp None u S \<longleftrightarrow> u = None \<and> S = {}"
  by (auto elim: child_rep.cases intro: no_child)

lemma child_rep_Some_iff: "child_rep hp (Some a) u S \<longleftrightarrow> (\<exists>t. u = Some t \<and> heap_rep hp a t S)"
  by (auto elim: child_rep.cases intro: child)

lemma child_rep_None_val: "child_rep hp c None S \<longleftrightarrow> c = None \<and> S = {}"
  by (auto elim: child_rep.cases intro: no_child)

lemma rep_unique:
  "heap_rep hp p t S \<Longrightarrow> heap_rep hp p t' S' \<Longrightarrow> t = t' \<and> S = S'"
  "child_rep hp c u S \<Longrightarrow> child_rep hp c u' S' \<Longrightarrow> u = u' \<and> S = S'"
proof (induction arbitrary: t' S' and u' S' rule: heap_rep_child_rep.inducts)
  case (node hp p s l A r B)
  from node.prems obtain s' l' A' r' B' where hs': "hp p = Some s'"
    and t': "t' = AVLTree (obj_data s') l' r' (obj_height s')" and S': "S' = insert p (A' \<union> B')"
    and cl: "child_rep hp (obj_left s') l' A'" and cr: "child_rep hp (obj_right s') r' B'"
    by (cases rule: heap_rep.cases) auto
  have ss: "s' = s" using hs' node.hyps(1) by simp
  from cl have cl2: "child_rep hp (obj_left s) l' A'" by (simp only: ss)
  from cr have cr2: "child_rep hp (obj_right s) r' B'" by (simp only: ss)
  have L: "l = l' \<and> A = A'" by (rule node.IH(1) [OF cl2])
  have R: "r = r' \<and> B = B'" by (rule node.IH(2) [OF cr2])
  show ?case using t' S' ss L R by simp
next
  case (no_child hp)
  then show ?case by (simp add: child_rep_None_iff)
next
  case (child hp a t A)
  from child.prems obtain t2 where u': "u' = Some t2" and h2: "heap_rep hp a t2 S'"
    by (auto simp: child_rep_Some_iff)
  from child.IH [OF h2] u' show ?case by simp
qed

lemma h_right_rotation_refines:
  assumes rep: "heap_rep hp p t S"
  shows "\<exists>hp'. h_right_rotation hp p = Some hp' \<and> heap_rep hp' p (right_rotation t) S \<and>
               (\<forall>q. q \<notin> S \<longrightarrow> hp' q = hp q)"
proof -
  from rep obtain s l r A B where hs: "hp p = Some s" and t: "t = AVLTree (obj_data s) l r (obj_height s)"
    and S: "S = insert p (A \<union> B)" and cl: "child_rep hp (obj_left s) l A"
    and cr: "child_rep hp (obj_right s) r B" and disj: "p \<notin> A" "p \<notin> B" "A \<inter> B = {}"
    by (cases rule: heap_rep.cases) auto
  show ?thesis
  proof (cases "obj_left s")
    case None
    then have "l = None" using cl by (simp add: child_rep_None_iff)
    with None hs t rep show ?thesis by (simp add: h_right_rotation_def)
  next
    case (Some lp)
    with cl obtain lt where l: "l = Some lt" and rl: "heap_rep hp lp lt A"
      by (auto simp: child_rep_Some_iff)
    from rl obtain lo ll lr A1 A2 where hl: "hp lp = Some lo"
      and lt: "lt = AVLTree (obj_data lo) ll lr (obj_height lo)" and A: "A = insert lp (A1 \<union> A2)"
      and cll: "child_rep hp (obj_left lo) ll A1" and clr: "child_rep hp (obj_right lo) lr A2"
      and d2: "lp \<notin> A1" "lp \<notin> A2" "A1 \<inter> A2 = {}"
      by (cases rule: heap_rep.cases) auto
    have plp: "p \<noteq> lp" "p \<notin> A1" "p \<notin> A2" "lp \<notin> B" "A1 \<inter> B = {}" "A2 \<inter> B = {}"
      using disj A by auto
    let ?hl = "max (node_height lr) (node_height r) + 1"
    let ?lo' = "lo\<lparr>obj_right := obj_right s, obj_left := obj_right lo, obj_data := obj_data s, obj_height := ?hl\<rparr>"
    let ?s' = "s\<lparr>obj_right := Some lp, obj_left := obj_left lo, obj_data := obj_data lo,
                 obj_height := max (node_height ll) ?hl + 1\<rparr>"
    have frame: "(hp(lp \<mapsto> x, p \<mapsto> y)) |` X = hp |` X" if "lp \<notin> X" "p \<notin> X" for X x y
      using that by simp
    have "h_right_rotation hp p = Some (hp(lp \<mapsto> ?lo', p \<mapsto> ?s'))"
      using hs Some hl plp d2 disj
      by (simp add: h_right_rotation_def h_recalc_height_def Let_def fun_upd_twist
          child_height_rep [OF clr] child_height_rep [OF cr] child_height_rep [OF cll])
    moreover have "heap_rep (hp(lp \<mapsto> ?lo', p \<mapsto> ?s')) p (right_rotation t) S"
    proof -
      let ?H = "hp(lp \<mapsto> ?lo', p \<mapsto> ?s')"
      have "child_rep ?H (obj_right lo) lr A2" by (rule rep_frame(2) [OF clr frame [OF d2(2) plp(3)]])
      moreover have "child_rep ?H (obj_right s) r B" by (rule rep_frame(2) [OF cr frame [OF plp(4) disj(2)]])
      ultimately have "heap_rep ?H lp (AVLTree (obj_data s) lr r ?hl) (insert lp (A2 \<union> B))"
        using heap_rep_child_rep.node [of ?H lp ?lo' lr A2 r B] plp d2 by (simp add: plp(1)[symmetric])
      then have R: "child_rep ?H (Some lp) (Some (AVLTree (obj_data s) lr r ?hl)) (insert lp (A2 \<union> B))"
        by (rule child)
      have L: "child_rep ?H (obj_left lo) ll A1" by (rule rep_frame(2) [OF cll frame [OF d2(1) plp(2)]])
      have "heap_rep ?H p (AVLTree (obj_data lo) ll (Some (AVLTree (obj_data s) lr r ?hl))
                (max (node_height ll) ?hl + 1)) (insert p (A1 \<union> insert lp (A2 \<union> B)))"
        using heap_rep_child_rep.node [of ?H p ?s' ll A1 "Some (AVLTree (obj_data s) lr r ?hl)"
            "insert lp (A2 \<union> B)"] L R plp d2 disj
        by auto
      moreover have "insert p (A1 \<union> insert lp (A2 \<union> B)) = S" using S A by auto
      ultimately show ?thesis using t l lt by simp
    qed
    moreover have "\<forall>q. q \<notin> S \<longrightarrow> (hp(lp \<mapsto> ?lo', p \<mapsto> ?s')) q = hp q" using S A by auto
    ultimately show ?thesis by blast
  qed
qed

lemma h_left_rotation_refines:
  assumes rep: "heap_rep hp p t S"
  shows "\<exists>hp'. h_left_rotation hp p = Some hp' \<and> heap_rep hp' p (left_rotation t) S \<and>
               (\<forall>q. q \<notin> S \<longrightarrow> hp' q = hp q)"
proof -
  from rep obtain s l r A B where hs: "hp p = Some s" and t: "t = AVLTree (obj_data s) l r (obj_height s)"
    and S: "S = insert p (A \<union> B)" and cl: "child_rep hp (obj_left s) l A"
    and cr: "child_rep hp (obj_right s) r B" and disj: "p \<notin> A" "p \<notin> B" "A \<inter> B = {}"
    by (cases rule: heap_rep.cases) auto
  show ?thesis
  proof (cases "obj_right s")
    case None
    then have "r = None" using cr by (simp add: child_rep_None_iff)
    with None hs t rep show ?thesis by (simp add: h_left_rotation_def)
  next
    case (Some rp)
    with cr obtain rt where r: "r = Some rt" and rr: "heap_rep hp rp rt B"
      by (auto simp: child_rep_Some_iff)
    from rr obtain ro rl rr' B1 B2 where hr: "hp rp = Some ro"
      and rt: "rt = AVLTree (obj_data ro) rl rr' (obj_height ro)" and B: "B = insert rp (B1 \<union> B2)"
      and crl: "child_rep hp (obj_left ro) rl B1" and crr: "child_rep hp (obj_right ro) rr' B2"
      and d2: "rp \<notin> B1" "rp \<notin> B2" "B1 \<inter> B2 = {}"
      by (cases rule: heap_rep.cases) auto
    have prp: "p \<noteq> rp" "p \<notin> B1" "p \<notin> B2" "rp \<notin> A" "A \<inter> B1 = {}" "A \<inter> B2 = {}"
      using disj B by auto
    let ?hl = "max (node_height l) (node_height rl) + 1"
    let ?ro' = "ro\<lparr>obj_left := obj_left s, obj_right := obj_left ro, obj_data := obj_data s, obj_height := ?hl\<rparr>"
    let ?s' = "s\<lparr>obj_left := Some rp, obj_right := obj_right ro, obj_data := obj_data ro,
                 obj_height := max ?hl (node_height rr') + 1\<rparr>"
    have frame: "(hp(rp \<mapsto> x, p \<mapsto> y)) |` X = hp |` X" if "rp \<notin> X" "p \<notin> X" for X x y
      using that by simp
    have "h_left_rotation hp p = Some (hp(rp \<mapsto> ?ro', p \<mapsto> ?s'))"
      using hs Some hr prp d2 disj
      by (simp add: h_left_rotation_def h_recalc_height_def Let_def fun_upd_twist
          child_height_rep [OF cl] child_height_rep [OF crl] child_height_rep [OF crr])
    moreover have "heap_rep (hp(rp \<mapsto> ?ro', p \<mapsto> ?s')) p (left_rotation t) S"
    proof -
      let ?H = "hp(rp \<mapsto> ?ro', p \<mapsto> ?s')"
      have "child_rep ?H (obj_left s) l A" by (rule rep_frame(2) [OF cl frame [OF prp(4) disj(1)]])
      moreover have "child_rep ?H (obj_left ro) rl B1" by (rule rep_frame(2) [OF crl frame [OF d2(1) prp(2)]])
      ultimately have "heap_rep ?H rp (AVLTree (obj_data s) l rl ?hl) (insert rp (A \<union> B1))"
        using heap_rep_child_rep.node [of ?H rp ?ro' l A rl B1] prp d2 by (simp add: prp(1)[symmetric])
      then have L: "child_rep ?H (Some rp) (Some (AVLTree (obj_data s) l rl ?hl)) (insert rp (A \<union> B1))"
        by (rule child)
      have R: "child_rep ?H (obj_right ro) rr' B2" by (rule rep_frame(2) [OF crr frame [OF d2(2) prp(3)]])
      have "heap_rep ?H p (AVLTree (obj_data ro) (Some (AVLTree (obj_data s) l rl ?hl)) rr'
                (max ?hl (node_height rr') + 1)) (insert p (insert rp (A \<union> B1) \<union> B2))"
        using heap_rep_child_rep.node [of ?H p ?s' "Some (AVLTree (obj_data s) l rl ?hl)"
            "insert rp (A \<union> B1)" rr' B2] L R prp d2 disj
        by auto
      moreover have "insert p (insert rp (A \<union> B1) \<union> B2) = S" using S B by auto
      ultimately show ?thesis using t r rt by simp
    qed
    moreover have "\<forall>q. q \<notin> S \<longrightarrow> (hp(rp \<mapsto> ?ro', p \<mapsto> ?s')) q = hp q" using S B by auto
    ultimately show ?thesis by blast
  qed
qed

lemma h_skew_rep:
  assumes "heap_rep hp p t S"
  shows "h_skew hp p = Some (skew t)"
proof -
  from assms obtain s l r A B where "hp p = Some s" "t = AVLTree (obj_data s) l r (obj_height s)"
    "child_rep hp (obj_left s) l A" "child_rep hp (obj_right s) r B"
    by (cases rule: heap_rep.cases) auto
  then show ?thesis
    using child_height_rep [of hp "obj_left s" l A hp] child_height_rep [of hp "obj_right s" r B hp]
    by (simp add: h_skew_def)
qed

text \<open>Replacing a subtree in place: when the objects of a child subtree now form another
  value, possibly over more objects that were not in the tree, and no other object of the
  tree changed, the node forms the value with that child replaced.\<close>

lemma rep_replace_right:
  assumes rep: "heap_rep hp p (AVLTree d l (Some rt) h) S" and hs: "hp p = Some s"
    and rp: "obj_right s = Some rp" and old: "heap_rep hp rp rt B" and new: "heap_rep hp' rp rt' B'"
    and grow: "B' \<inter> S \<subseteq> B" and same: "\<forall>q\<in>S - B. hp' q = hp q"
  shows "heap_rep hp' p (AVLTree d l (Some rt') h) (S - B \<union> B')"
proof -
  from rep obtain s0 A B0 where "hp p = Some s0" and t: "d = obj_data s0" "h = obj_height s0"
    and S: "S = insert p (A \<union> B0)" and cl: "child_rep hp (obj_left s0) l A"
    and cr: "child_rep hp (obj_right s0) (Some rt) B0" and disj: "p \<notin> A" "p \<notin> B0" "A \<inter> B0 = {}"
    by (cases rule: heap_rep.cases) auto
  have s0: "s0 = s" using \<open>hp p = Some s0\<close> hs by simp
  from cr have "heap_rep hp rp rt B0" by (simp add: s0 rp child_rep_Some_iff)
  then have B: "B0 = B" using rep_unique(1) [OF _ old] by blast
  have "hp' p = Some s" using hs same disj S B by auto
  moreover have "child_rep hp' (obj_left s) l A"
  proof -
    have "\<forall>q\<in>A. hp' q = hp q" using same disj(3) S B by blast
    with cl show ?thesis unfolding s0 by (rule rep_frame_ball(2))
  qed
  moreover have "child_rep hp' (obj_right s) (Some rt') B'" using rp new by (simp add: child)
  moreover have "p \<notin> B'" "A \<inter> B' = {}" using grow disj S B by auto
  ultimately have "heap_rep hp' p (AVLTree (obj_data s) l (Some rt') (obj_height s)) (insert p (A \<union> B'))"
    using heap_rep_child_rep.node [of hp' p s l A "Some rt'" B'] disj by simp
  moreover have "insert p (A \<union> B') = S - B \<union> B'" using S B disj by auto
  ultimately show ?thesis using t s0 by simp
qed

lemma rep_children:
  assumes "heap_rep hp p (AVLTree d l r h) S" "hp p = Some s"
  shows "(obj_left s = None \<longleftrightarrow> l = None) \<and> (obj_right s = None \<longleftrightarrow> r = None)"
proof -
  from assms(1) obtain s0 A B where "hp p = Some s0" "child_rep hp (obj_left s0) l A"
    "child_rep hp (obj_right s0) r B"
    by (cases rule: heap_rep.cases) auto
  with assms(2) show ?thesis by (auto elim: child_rep.cases)
qed

lemma rep_right_child:
  assumes "heap_rep hp p (AVLTree d l (Some rt) h) S" "hp p = Some s"
  shows "\<exists>rp B. obj_right s = Some rp \<and> heap_rep hp rp rt B \<and> B \<subseteq> S"
proof -
  from assms(1) obtain s0 A B where "hp p = Some s0" "child_rep hp (obj_right s0) (Some rt) B"
    "S = insert p (A \<union> B)"
    by (cases rule: heap_rep.cases) auto
  with assms(2) show ?thesis by (cases "obj_right s") (auto simp: child_rep_None_iff child_rep_Some_iff)
qed

lemma rep_left_child:
  assumes "heap_rep hp p (AVLTree d (Some lt) r h) S" "hp p = Some s"
  shows "\<exists>lp A. obj_left s = Some lp \<and> heap_rep hp lp lt A \<and> A \<subseteq> S"
proof -
  from assms(1) obtain s0 A B where "hp p = Some s0" "child_rep hp (obj_left s0) (Some lt) A"
    "S = insert p (A \<union> B)"
    by (cases rule: heap_rep.cases) auto
  with assms(2) show ?thesis by (cases "obj_left s") (auto simp: child_rep_None_iff child_rep_Some_iff)
qed

lemma rep_replace_left:
  assumes rep: "heap_rep hp p (AVLTree d (Some lt) r h) S" and hs: "hp p = Some s"
    and lp: "obj_left s = Some lp" and old: "heap_rep hp lp lt A" and new: "heap_rep hp' lp lt' A'"
    and grow: "A' \<inter> S \<subseteq> A" and same: "\<forall>q\<in>S - A. hp' q = hp q"
  shows "heap_rep hp' p (AVLTree d (Some lt') r h) (S - A \<union> A')"
proof -
  from rep obtain s0 A0 B where "hp p = Some s0" and t: "d = obj_data s0" "h = obj_height s0"
    and S: "S = insert p (A0 \<union> B)" and cl: "child_rep hp (obj_left s0) (Some lt) A0"
    and cr: "child_rep hp (obj_right s0) r B" and disj: "p \<notin> A0" "p \<notin> B" "A0 \<inter> B = {}"
    by (cases rule: heap_rep.cases) auto
  have s0: "s0 = s" using \<open>hp p = Some s0\<close> hs by simp
  from cl have "heap_rep hp lp lt A0" by (simp add: s0 lp child_rep_Some_iff)
  then have A: "A0 = A" using rep_unique(1) [OF _ old] by blast
  have "hp' p = Some s" using hs same disj S A by auto
  moreover have "child_rep hp' (obj_right s) r B"
  proof -
    have "\<forall>q\<in>B. hp' q = hp q" using same disj(3) S A by blast
    with cr show ?thesis unfolding s0 by (rule rep_frame_ball(2))
  qed
  moreover have "child_rep hp' (obj_left s) (Some lt') A'" using lp new by (simp add: child)
  moreover have "p \<notin> A'" "A' \<inter> B = {}" using grow disj S A by auto
  ultimately have "heap_rep hp' p (AVLTree (obj_data s) (Some lt') r (obj_height s)) (insert p (A' \<union> B))"
    using heap_rep_child_rep.node [of hp' p s "Some lt'" A' r B] disj by simp
  moreover have "insert p (A' \<union> B) = S - A \<union> A'" using S A disj by auto
  ultimately show ?thesis using t s0 by simp
qed

text \<open>The inner rotation of a double rotation, on the child in place.\<close>

lemma h_pre_rotation_right:
  assumes rep: "heap_rep hp p (AVLTree d l (Some rt) h) S" and hs: "hp p = Some s"
    and rp: "obj_right s = Some rp"
  shows "\<exists>hp'. (if skew rt < 0 then h_right_rotation hp rp else Some hp) = Some hp' \<and>
           heap_rep hp' p (AVLTree d l (Some (if skew rt < 0 then right_rotation rt else rt)) h) S \<and>
           (\<forall>q. q \<notin> S \<longrightarrow> hp' q = hp q)"
proof (cases "skew rt < 0")
  case True
  from rep_right_child [OF rep hs] rp obtain B where old: "heap_rep hp rp rt B" "B \<subseteq> S" by auto
  from h_right_rotation_refines [OF old(1)] obtain hp1 where h1: "h_right_rotation hp rp = Some hp1"
    "heap_rep hp1 rp (right_rotation rt) B" "\<forall>q. q \<notin> B \<longrightarrow> hp1 q = hp q" by blast
  have "heap_rep hp1 p (AVLTree d l (Some (right_rotation rt)) h) (S - B \<union> B)"
    using h1(3) by (intro rep_replace_right [OF rep hs rp old(1) h1(2)]) auto
  then have "heap_rep hp1 p (AVLTree d l (Some (right_rotation rt)) h) S" using old(2) by (simp add: Un_absorb2)
  with h1 old(2) True show ?thesis by auto
next
  case False
  with rep show ?thesis by auto
qed

lemma h_pre_rotation_left:
  assumes rep: "heap_rep hp p (AVLTree d (Some lt) r h) S" and hs: "hp p = Some s"
    and lp: "obj_left s = Some lp"
  shows "\<exists>hp'. (if 0 < skew lt then h_left_rotation hp lp else Some hp) = Some hp' \<and>
           heap_rep hp' p (AVLTree d (Some (if 0 < skew lt then left_rotation lt else lt)) r h) S \<and>
           (\<forall>q. q \<notin> S \<longrightarrow> hp' q = hp q)"
proof (cases "0 < skew lt")
  case True
  from rep_left_child [OF rep hs] lp obtain A where old: "heap_rep hp lp lt A" "A \<subseteq> S" by auto
  from h_left_rotation_refines [OF old(1)] obtain hp1 where h1: "h_left_rotation hp lp = Some hp1"
    "heap_rep hp1 lp (left_rotation lt) A" "\<forall>q. q \<notin> A \<longrightarrow> hp1 q = hp q" by blast
  have "heap_rep hp1 p (AVLTree d (Some (left_rotation lt)) r h) (S - A \<union> A)"
    using h1(3) by (intro rep_replace_left [OF rep hs lp old(1) h1(2)]) auto
  then have "heap_rep hp1 p (AVLTree d (Some (left_rotation lt)) r h) S" using old(2) by (simp add: Un_absorb2)
  with h1 old(2) True show ?thesis by auto
next
  case False
  with rep show ?thesis by auto
qed

lemma res_rel_refl: "heap_rep hp p t S \<Longrightarrow> res_rel hp p S (Inr t) (Inr hp)"
  by (simp add: res_rel_def)

lemma h_balance_right_heavy_rel:
  assumes rep: "heap_rep hp p t S"
  shows "\<exists>res. h_balance_right_heavy hp p = Some res \<and> res_rel hp p S (balance_right_heavy t) res"
proof -
  obtain d l r h where t: "t = AVLTree d l r h" by (cases t)
  from rep_root [OF rep] obtain s where hs: "hp p = Some s" by blast
  have sk: "h_skew hp p = Some (skew t)" by (rule h_skew_rep [OF rep])
  show ?thesis
  proof (cases "skew t = 2")
    case False
    with sk rep show ?thesis
      by (simp add: h_balance_right_heavy_def balance_right_heavy_def res_rel_refl)
  next
    case True
    show ?thesis
    proof (cases r)
      case None
      with rep_children [OF rep [unfolded t] hs] have "obj_right s = None" by simp
      with None True sk hs t show ?thesis
        by (simp add: h_balance_right_heavy_def balance_right_heavy_def res_rel_def)
    next
      case (Some rt)
      note rep' = rep [unfolded t Some]
      from rep_right_child [OF rep' hs] obtain rp B where rp: "obj_right s = Some rp"
        and rr: "heap_rep hp rp rt B" by blast
      from h_pre_rotation_right [OF rep' hs rp] obtain hp1 where
        h1: "(if skew rt < 0 then h_right_rotation hp rp else Some hp) = Some hp1"
        "heap_rep hp1 p (AVLTree d l (Some (if skew rt < 0 then right_rotation rt else rt)) h) S"
        "\<forall>q. q \<notin> S \<longrightarrow> hp1 q = hp q" by blast
      from h_left_rotation_refines [OF h1(2)] obtain hp2 where h2: "h_left_rotation hp1 p = Some hp2"
        "heap_rep hp2 p (left_rotation (AVLTree d l (Some (if skew rt < 0 then right_rotation rt else rt)) h)) S"
        "\<forall>q. q \<notin> S \<longrightarrow> hp2 q = hp1 q" by blast
      have "h_balance_right_heavy hp p = Some (Inr hp2)"
        using True sk hs rp h1(1) h2(1) h_skew_rep [OF rr]
        by (simp add: h_balance_right_heavy_def)
      moreover have "res_rel hp p S (balance_right_heavy t) (Inr hp2)"
        using True t Some h2(2,3) h1(3) by (simp add: balance_right_heavy_def res_rel_def)
      ultimately show ?thesis by blast
    qed
  qed
qed

lemma h_balance_left_heavy_rel:
  assumes rep: "heap_rep hp p t S"
  shows "\<exists>res. h_balance_left_heavy hp p = Some res \<and> res_rel hp p S (balance_left_heavy t) res"
proof -
  obtain d l r h where t: "t = AVLTree d l r h" by (cases t)
  from rep_root [OF rep] obtain s where hs: "hp p = Some s" by blast
  have sk: "h_skew hp p = Some (skew t)" by (rule h_skew_rep [OF rep])
  show ?thesis
  proof (cases "skew t = -2")
    case False
    with sk rep show ?thesis
      by (simp add: h_balance_left_heavy_def balance_left_heavy_def res_rel_refl)
  next
    case True
    show ?thesis
    proof (cases l)
      case None
      with rep_children [OF rep [unfolded t] hs] have "obj_left s = None" by simp
      with None True sk hs t show ?thesis
        by (simp add: h_balance_left_heavy_def balance_left_heavy_def res_rel_def)
    next
      case (Some lt)
      note rep' = rep [unfolded t Some]
      from rep_left_child [OF rep' hs] obtain lp A where lp: "obj_left s = Some lp"
        and rl: "heap_rep hp lp lt A" by blast
      from h_pre_rotation_left [OF rep' hs lp] obtain hp1 where
        h1: "(if 0 < skew lt then h_left_rotation hp lp else Some hp) = Some hp1"
        "heap_rep hp1 p (AVLTree d (Some (if 0 < skew lt then left_rotation lt else lt)) r h) S"
        "\<forall>q. q \<notin> S \<longrightarrow> hp1 q = hp q" by blast
      from h_right_rotation_refines [OF h1(2)] obtain hp2 where h2: "h_right_rotation hp1 p = Some hp2"
        "heap_rep hp2 p (right_rotation (AVLTree d (Some (if 0 < skew lt then left_rotation lt else lt)) r h)) S"
        "\<forall>q. q \<notin> S \<longrightarrow> hp2 q = hp1 q" by blast
      have "h_balance_left_heavy hp p = Some (Inr hp2)"
        using True sk hs lp h1(1) h2(1) h_skew_rep [OF rl]
        by (simp add: h_balance_left_heavy_def)
      moreover have "res_rel hp p S (balance_left_heavy t) (Inr hp2)"
        using True t Some h2(2,3) h1(3) by (simp add: balance_left_heavy_def res_rel_def)
      ultimately show ?thesis by blast
    qed
  qed
qed

text \<open>The whole of \<^verbatim>\<open>_balance_update\<close> on the store refines \<open>balance_update\<close>: on a node
  that represents \<open>t\<close>, it returns (it never dereferences a missing object), raises
  exactly when \<open>balance_update t\<close> raises, and otherwise leaves the node at \<open>p\<close>
  representing \<open>balance_update t\<close> over the same objects, the rest of the store untouched.\<close>

lemma h_balance_update_rel:
  assumes rep: "heap_rep hp p t S"
  shows "\<exists>res. h_balance_update hp p = Some res \<and> res_rel hp p S (balance_update t) res"
proof (cases "skew t \<in> {0, 1, -1}")
  case True
  with h_skew_rep [OF rep] rep show ?thesis
    by (simp add: h_balance_update_def balance_update_def res_rel_refl)
next
  case False
  from h_balance_right_heavy_rel [OF rep] obtain r1 where
    r1: "h_balance_right_heavy hp p = Some r1" "res_rel hp p S (balance_right_heavy t) r1" by blast
  show ?thesis
  proof (cases "balance_right_heavy t")
    case (Inl e)
    with False r1 h_skew_rep [OF rep] show ?thesis
      by (simp add: h_balance_update_def balance_update_def res_rel_def)
  next
    case (Inr t1)
    with r1(2) obtain hp1 where hp1: "r1 = Inr hp1" "heap_rep hp1 p t1 S"
      "\<forall>q. q \<notin> S \<longrightarrow> hp1 q = hp q" by (auto simp: res_rel_def)
    from h_balance_left_heavy_rel [OF hp1(2)] obtain r2 where
      r2: "h_balance_left_heavy hp1 p = Some r2" "res_rel hp1 p S (balance_left_heavy t1) r2" by blast
    have "h_balance_update hp p = Some r2"
      using False r1(1) hp1(1) r2(1) h_skew_rep [OF rep] by (simp add: h_balance_update_def)
    moreover have "res_rel hp p S (balance_update t) r2"
      using False Inr r2(2) hp1(3) by (auto simp: balance_update_def res_rel_def split: sum.splits)
    ultimately show ?thesis by blast
  qed
qed

lemma rep_of_sound:
  "rep_of f hp p = Some (t, S) \<Longrightarrow> heap_rep hp p t S"
  "crep_of f hp c = Some (u, S) \<Longrightarrow> child_rep hp c u S"
proof (induction f hp p and f hp c arbitrary: t S and u S rule: rep_of_crep_of.induct)
  case (2 f hp p)
  then show ?case
    by (auto split: option.splits if_splits intro!: heap_rep_child_rep.node)
next
  case (3 f hp)
  then show ?case by (auto intro: no_child)
next
  case (4 f hp a)
  then show ?case by (auto intro: child)
qed simp

subsection \<open>Properties of the store-level code\<close>

text \<open>C15: \<^verbatim>\<open>_balance_update\<close> run on the objects of a node whose children are AVL trees
  differing in height by at most two returns without error, and afterwards the same
  object is the root of an AVL tree over the same objects with the same in-order
  sequence of keys; no object outside the subtree changes.\<close>

theorem h_balance_update_avl:
  assumes rep: "heap_rep hp p t S" and ok: "nodes_ok t" and t: "tree_of t = Node L a R"
    and bal: "avl L" "avl R" "height L \<le> height R + 2" "height R \<le> height L + 2"
  shows "\<exists>hp' t'. h_balance_update hp p = Some (Inr hp') \<and> heap_rep hp' p t' S \<and> nodes_ok t' \<and>
           avl (tree_of t') \<and> inorder (tree_of t') = inorder (tree_of t) \<and>
           (\<forall>q. q \<notin> S \<longrightarrow> hp' q = hp q)"
proof -
  obtain t' where t': "balance_update t = Inr t'" "nodes_ok t'"
    "tree_of t' = (if height L = height R + 2 then balL L a R else balR L a R)"
    using balance_update_cases [OF ok t bal] by blast
  from h_balance_update_rel [OF rep] t'(1) obtain hp' where
    h: "h_balance_update hp p = Some (Inr hp')" "heap_rep hp' p t' S" "\<forall>q. q \<notin> S \<longrightarrow> hp' q = hp q"
    by (auto simp: res_rel_def)
  have "avl (tree_of t')" using avl_bal_choice [OF bal] t'(3) by simp
  with h t' t show ?thesis by (auto simp: inorder_balL inorder_balR)
qed

theorem h_balance_update_avl_witness:
  "heap_rep [0 \<mapsto> \<lparr>obj_data = Some (1::int), obj_left = None, obj_right = Some 1, obj_height = 3\<rparr>,
             1 \<mapsto> \<lparr>obj_data = Some 2, obj_left = None, obj_right = Some 2, obj_height = 2\<rparr>,
             2 \<mapsto> \<lparr>obj_data = Some 3, obj_left = None, obj_right = None, obj_height = 1\<rparr>] 0
     (AVLTree (Some 1) None (Some (AVLTree (Some 2) None (Some (AVLTree (Some 3) None None 1)) 2)) 3)
     {0, 1, 2} \<and>
   (\<exists>hp' t'. h_balance_update
       [0 \<mapsto> \<lparr>obj_data = Some (1::int), obj_left = None, obj_right = Some 1, obj_height = 3\<rparr>,
        1 \<mapsto> \<lparr>obj_data = Some 2, obj_left = None, obj_right = Some 2, obj_height = 2\<rparr>,
        2 \<mapsto> \<lparr>obj_data = Some 3, obj_left = None, obj_right = None, obj_height = 1\<rparr>] 0 = Some (Inr hp') \<and>
     heap_rep hp' 0 t' {0, 1, 2} \<and> nodes_ok t' \<and> avl (tree_of t') \<and> inorder (tree_of t') = [1, 2, 3])"
proof -
  let ?H = "[0 \<mapsto> \<lparr>obj_data = Some (1::int), obj_left = None, obj_right = Some 1, obj_height = 3\<rparr>,
             1 \<mapsto> \<lparr>obj_data = Some 2, obj_left = None, obj_right = Some 2, obj_height = 2\<rparr>,
             2 \<mapsto> \<lparr>obj_data = Some 3, obj_left = None, obj_right = None, obj_height = 1\<rparr>]"
  let ?T = "AVLTree (Some (1::int)) None (Some (AVLTree (Some 2) None (Some (AVLTree (Some 3) None None 1)) 2)) 3"
  have rep: "heap_rep ?H 0 ?T {0, 1, 2}" by (rule rep_of_sound(1) [of "Suc (Suc (Suc 0))"]) (simp add: insert_commute)
  have ok: "nodes_ok ?T" by (simp add: nodes_ok.simps)
  have t: "tree_of ?T = Node Leaf 1 (Node Leaf 2 (Node Leaf 3 Leaf))" by (simp add: tree_of.simps)
  from h_balance_update_avl [OF rep ok t] rep t show ?thesis by auto
qed

text \<open>C16: \<^verbatim>\<open>_right_rotation\<close> on the objects of a well-formed node always returns, keeps
  the rotated node's root at the same object (the data is swapped, not the object),
  uses the same objects, changes no object outside them, and the tree they form is the
  abstract right rotation of the one before.\<close>

theorem h_right_rotation_correct:
  assumes "heap_rep hp p t S" "nodes_ok t"
  shows "\<exists>hp' t'. h_right_rotation hp p = Some hp' \<and> heap_rep hp' p t' S \<and> nodes_ok t' \<and>
           tree_of t' = rotR (tree_of t) \<and> (\<forall>q. q \<notin> S \<longrightarrow> hp' q = hp q)"
  using h_right_rotation_refines [OF assms(1)] right_rotation_refines [OF assms(2)] by blast

theorem h_right_rotation_correct_witness:
  "heap_rep [0 \<mapsto> \<lparr>obj_data = Some (2::int), obj_left = Some 1, obj_right = None, obj_height = 2\<rparr>,
             1 \<mapsto> \<lparr>obj_data = Some 1, obj_left = None, obj_right = None, obj_height = 1\<rparr>] 0
     (AVLTree (Some 2) (Some (AVLTree (Some 1) None None 1)) None 2) {0, 1} \<and>
   (\<exists>hp' t'. h_right_rotation
       [0 \<mapsto> \<lparr>obj_data = Some (2::int), obj_left = Some 1, obj_right = None, obj_height = 2\<rparr>,
        1 \<mapsto> \<lparr>obj_data = Some 1, obj_left = None, obj_right = None, obj_height = 1\<rparr>] 0 = Some hp' \<and>
     heap_rep hp' 0 t' {0, 1} \<and> tree_of t' = Node Leaf 1 (Node Leaf 2 Leaf))"
proof -
  let ?H = "[0 \<mapsto> \<lparr>obj_data = Some (2::int), obj_left = Some 1, obj_right = None, obj_height = 2\<rparr>,
             1 \<mapsto> \<lparr>obj_data = Some 1, obj_left = None, obj_right = None, obj_height = 1\<rparr>]"
  let ?T = "AVLTree (Some (2::int)) (Some (AVLTree (Some 1) None None 1)) None 2"
  have rep: "heap_rep ?H 0 ?T {0, 1}" by (rule rep_of_sound(1) [of "Suc (Suc 0)"]) simp
  have ok: "nodes_ok ?T" by (simp add: nodes_ok.simps)
  from h_right_rotation_correct [OF rep ok] rep show ?thesis by (auto simp: tree_of.simps)
qed

text \<open>C17: the same for \<^verbatim>\<open>_left_rotation\<close> and the abstract left rotation.\<close>

theorem h_left_rotation_correct:
  assumes "heap_rep hp p t S" "nodes_ok t"
  shows "\<exists>hp' t'. h_left_rotation hp p = Some hp' \<and> heap_rep hp' p t' S \<and> nodes_ok t' \<and>
           tree_of t' = rotL (tree_of t) \<and> (\<forall>q. q \<notin> S \<longrightarrow> hp' q = hp q)"
  using h_left_rotation_refines [OF assms(1)] left_rotation_refines [OF assms(2)] by blast

theorem h_left_rotation_correct_witness:
  "heap_rep [0 \<mapsto> \<lparr>obj_data = Some (1::int), obj_left = None, obj_right = Some 1, obj_height = 2\<rparr>,
             1 \<mapsto> \<lparr>obj_data = Some 2, obj_left = None, obj_right = None, obj_height = 1\<rparr>] 0
     (AVLTree (Some 1) None (Some (AVLTree (Some 2) None None 1)) 2) {0, 1} \<and>
   (\<exists>hp' t'. h_left_rotation
       [0 \<mapsto> \<lparr>obj_data = Some (1::int), obj_left = None, obj_right = Some 1, obj_height = 2\<rparr>,
        1 \<mapsto> \<lparr>obj_data = Some 2, obj_left = None, obj_right = None, obj_height = 1\<rparr>] 0 = Some hp' \<and>
     heap_rep hp' 0 t' {0, 1} \<and> tree_of t' = Node (Node Leaf 1 Leaf) 2 Leaf)"
proof -
  let ?H = "[0 \<mapsto> \<lparr>obj_data = Some (1::int), obj_left = None, obj_right = Some 1, obj_height = 2\<rparr>,
             1 \<mapsto> \<lparr>obj_data = Some 2, obj_left = None, obj_right = None, obj_height = 1\<rparr>]"
  let ?T = "AVLTree (Some (1::int)) None (Some (AVLTree (Some 2) None None 1)) 2"
  have rep: "heap_rep ?H 0 ?T {0, 1}" by (rule rep_of_sound(1) [of "Suc (Suc 0)"]) simp
  have ok: "nodes_ok ?T" by (simp add: nodes_ok.simps)
  from h_left_rotation_correct [OF rep ok] rep show ?thesis by (auto simp: tree_of.simps)
qed

end
