(* ===== verification/AVL_Repr.thy ===== *)
theory AVL_Repr
  imports AVL_Node
begin

text \<open>
  \<^verbatim>\<open>__repr__\<close> of \<^verbatim>\<open>src/trees.py\<close>: a node renders as its data, height and skew
  on one line, then the lines of \<^verbatim>\<open>left: \<close> and \<^verbatim>\<open>right: \<close> followed by the
  rendering of the child (\<^verbatim>\<open>None\<close> for a missing child), each line of a child block
  indented by two spaces. The rendering of the keys is a parameter (Python's \<^verbatim>\<open>str\<close>
  of the key type). The lemmas count the lines: one per object and one per missing child.
\<close>

text \<open>\<^verbatim>\<open>'\\n  '.join(x.split('\\n'))\<close>, the expression of lines 122 and 123.\<close>

definition indent_block :: "string \<Rightarrow> string" where
  "indent_block s = py_join (newline # ''  '') (py_split newline s)"

fun AVLTree_repr :: "('a \<Rightarrow> string) \<Rightarrow> 'a avltree \<Rightarrow> string" where
  "AVLTree_repr str_data (AVLTree d l r h) =
     (let child_elements =
            [''left: '' @ (case l of None \<Rightarrow> ''None'' | Some lt \<Rightarrow> AVLTree_repr str_data lt),
             ''right: '' @ (case r of None \<Rightarrow> ''None'' | Some rt \<Rightarrow> AVLTree_repr str_data rt)];
          left_block = indent_block (child_elements ! 0);
          right_block = indent_block (child_elements ! 1)
      in (case d of None \<Rightarrow> ''None'' | Some a \<Rightarrow> str_data a) @ '', '' @ int_str h @ '', '' @
           int_str (skew (AVLTree d l r h)) @ newline # ''  '' @ left_block @ newline # ''  '' @ right_block)"

fun count_nodes :: "'a avltree \<Rightarrow> nat" where
  "count_nodes (AVLTree d l r h) =
     Suc ((case l of None \<Rightarrow> 0 | Some lt \<Rightarrow> count_nodes lt) + (case r of None \<Rightarrow> 0 | Some rt \<Rightarrow> count_nodes rt))"

declare AVLTree_repr.simps [simp del]

lemma count_indent_block [simp]:
  "count_list (indent_block s) newline = count_list s newline"
proof -
  have "count_list (concat (map (\<lambda>x. if x = newline then newline # ''  '' else [x]) s)) newline =
        count_list s newline"
    by (induction s) (auto simp: newline_def)
  then show ?thesis by (simp add: indent_block_def py_join_split)
qed

lemma count_newline_free [simp]: "newline \<notin> set s \<Longrightarrow> count_list s newline = 0"
  by (simp add: count_list_0_iff)

lemma newline_notin_words:
  "newline \<notin> set ''None''" "newline \<notin> set '', ''" "newline \<notin> set ''  ''"
  "newline \<notin> set ''left: ''" "newline \<notin> set ''right: ''"
  by (simp_all add: newline_def)

lemma count_newline_Cons: "count_list (newline # s) newline = Suc (count_list s newline)"
  by simp

lemma count_AVLTree_repr_node:
  "count_list (AVLTree_repr str_data (AVLTree d l r h)) newline =
     count_list (case d of None \<Rightarrow> ''None'' | Some a \<Rightarrow> str_data a) newline + 2 +
     count_list (case l of None \<Rightarrow> ''None'' | Some lt \<Rightarrow> AVLTree_repr str_data lt) newline +
     count_list (case r of None \<Rightarrow> ''None'' | Some rt \<Rightarrow> AVLTree_repr str_data rt) newline"
  by (simp only: AVLTree_repr.simps Let_def nth_Cons_0 nth_Cons_Suc One_nat_def count_indent_block
        count_list_append count_newline_Cons newline_notin_words newline_notin_int_str
        count_newline_free)
     (simp add: newline_def count_list_0_iff newline_notin_int_str [unfolded newline_def])

lemma count_AVLTree_repr:
  "(\<forall>a. newline \<notin> set (str_data a)) \<Longrightarrow>
     count_list (AVLTree_repr str_data t) newline = 2 * count_nodes t"
proof (induction t rule: count_nodes.induct)
  case (1 d l r h)
  have D: "count_list (case d of None \<Rightarrow> ''None'' | Some a \<Rightarrow> str_data a) newline = 0"
    using "1.prems" newline_notin_words by (simp split: option.splits)
  have L: "count_list (case l of None \<Rightarrow> ''None'' | Some lt \<Rightarrow> AVLTree_repr str_data lt) newline =
           2 * (case l of None \<Rightarrow> 0 | Some lt \<Rightarrow> count_nodes lt)"
  proof (cases l)
    case None
    then show ?thesis by (simp add: newline_def)
  next
    case (Some lt)
    with "1.IH"(1) "1.prems" show ?thesis by simp
  qed
  have R: "count_list (case r of None \<Rightarrow> ''None'' | Some rt \<Rightarrow> AVLTree_repr str_data rt) newline =
           2 * (case r of None \<Rightarrow> 0 | Some rt \<Rightarrow> count_nodes rt)"
  proof (cases r)
    case None
    then show ?thesis by (simp add: newline_def)
  next
    case (Some rt)
    with "1.IH"(2) "1.prems" show ?thesis by simp
  qed
  show ?case by (simp only: count_AVLTree_repr_node D L R count_nodes.simps) simp
qed

lemma count_nodes_tree_of: "nodes_ok t \<Longrightarrow> count_nodes t = size (tree_of t)"
proof (induction t rule: count_nodes.induct)
  case (1 d l r h)
  then show ?case by (auto split: option.splits)
qed

text \<open>C12: when no key renders with a newline, the rendering of a well-formed object
  with \<open>n\<close> keys has \<open>2 n + 1\<close> lines: one per object and one per missing child.\<close>

theorem AVLTree_repr_lines:
  assumes "nodes_ok t" "\<forall>a. newline \<notin> set (str_data a)"
  shows "length (py_split newline (AVLTree_repr str_data t)) = 2 * size (tree_of t) + 1"
  using count_AVLTree_repr [OF assms(2)] count_nodes_tree_of [OF assms(1)]
  by (simp add: length_py_split)

theorem AVLTree_repr_lines_witness:
  "nodes_ok (AVLTree (Some (2::int)) (Some (AVLTree (Some 1) None None 1)) None 2) \<and>
   (\<forall>a. newline \<notin> set (int_str a)) \<and>
   length (py_split newline
     (AVLTree_repr int_str (AVLTree (Some (2::int)) (Some (AVLTree (Some 1) None None 1)) None 2))) = 5"
proof -
  have ok: "nodes_ok (AVLTree (Some (2::int)) (Some (AVLTree (Some 1) None None 1)) None 2)" by simp
  have nl: "\<forall>a. newline \<notin> set (int_str a)" by simp
  show ?thesis using ok nl AVLTree_repr_lines [OF ok nl] by simp
qed

end
