(* ===== verification/AVL_Build.thy ===== *)
theory AVL_Build
  imports AVL_Insert AVL_Repr
begin

text \<open>
  Construction and the remaining methods of \<^verbatim>\<open>src/trees.py\<close>: \<^verbatim>\<open>__init__\<close>,
  which starts from the empty node and inserts the dataset in its order; the stubs
  \<^verbatim>\<open>delete\<close> and \<^verbatim>\<open>find\<close>, whose body is \<^verbatim>\<open>pass\<close>; and the fixed dataset
  of \<^verbatim>\<open>avl_demo\<close>. The lemmas show that construction never raises, builds an AVL
  object whose in-order sequence is the sorted set of the dataset, refines the fold of
  the abstract insertion, and compute the text the demo prints.
\<close>

subsection \<open>Construction\<close>

text \<open>\<^verbatim>\<open>for data in dataset: self.insert(data)\<close>: the returned flag is dropped and
  an exception ends the constructor.\<close>

fun insert_all :: "'a::linorder avltree \<Rightarrow> 'a list \<Rightarrow> 'a avltree result" where
  "insert_all t [] = Inr t"
| "insert_all t (x # xs) =
     (case AVLTree_insert x t of Inl e \<Rightarrow> Inl e | Inr (t', _) \<Rightarrow> insert_all t' xs)"

definition AVLTree_init :: "'a::linorder list \<Rightarrow> 'a avltree result" where
  "AVLTree_init dataset = insert_all empty_node dataset"

text \<open>\<^verbatim>\<open>delete\<close> and \<^verbatim>\<open>find\<close> are stubs: the body \<^verbatim>\<open>pass\<close> changes nothing and
  returns \<^verbatim>\<open>None\<close>, whatever the key.\<close>

definition AVLTree_delete :: "'a avltree \<Rightarrow> 'a \<Rightarrow> 'a avltree \<times> 'b option" where
  "AVLTree_delete t x = (t, None)"

definition AVLTree_find :: "'a avltree \<Rightarrow> 'a \<Rightarrow> 'b option" where
  "AVLTree_find t x = None"

text \<open>The tree \<^verbatim>\<open>avl_demo\<close> builds and prints (printing is not modelled).\<close>

definition avl_demo :: "int avltree result" where
  "avl_demo = AVLTree_init [1, 2, 4, 3, 8, 5, 6, -1]"

text \<open>What \<^verbatim>\<open>print(test_tree)\<close> writes: \<^verbatim>\<open>str\<close> falls back to
  \<^verbatim>\<open>__repr__\<close>, and \<^verbatim>\<open>print\<close> ends the line.\<close>

definition avl_demo_output :: "string result" where
  "avl_demo_output =
     (case avl_demo of Inl e \<Rightarrow> Inl e | Inr test_tree \<Rightarrow> Inr (AVLTree_repr int_str test_tree @ [newline]))"

subsection \<open>Construction keeps the invariant\<close>

lemma avl_invar_empty_node [simp]: "avl_invar empty_node"
  by (simp add: avl_invar_def)

lemma insert_all_invar:
  "avl_invar t \<Longrightarrow>
     \<exists>t'. insert_all t xs = Inr t' \<and> avl_invar t' \<and>
          tree_of t' = fold ins_spec xs (tree_of t)"
proof (induction xs arbitrary: t)
  case Nil
  then show ?case by simp
next
  case (Cons x xs)
  obtain t1 where t1: "AVLTree_insert x t = Inr (t1, t \<noteq> empty_node \<and> x \<notin> set_tree (tree_of t))"
    "avl_invar t1" "tree_of t1 = ins_spec x (tree_of t)"
    using AVLTree_insert_invar [OF Cons.prems] by blast
  from Cons.IH [OF t1(2)] t1 show ?case by auto
qed

lemma inorder_fold_ins_spec:
  "bst t \<Longrightarrow> inorder (fold ins_spec xs t) = fold ins_list xs (inorder t)"
proof (induction xs arbitrary: t)
  case (Cons x xs)
  then have "bst (ins_spec x t)" by (simp add: bst_ins_spec)
  with Cons show ?case by (simp add: inorder_ins_spec bst_iff_sorted_wrt_less)
qed simp

lemma fold_ins_list:
  "sorted_wrt (<) ys \<Longrightarrow>
     sorted_wrt (<) (fold ins_list xs ys) \<and> set (fold ins_list xs ys) = set xs \<union> set ys"
  by (induction xs arbitrary: ys) auto

lemma fold_ins_list_Nil: "fold ins_list xs [] = sorted_list_of_set (set xs)"
  using fold_ins_list [of "[]" xs]
  by (intro strict_sorted_equal) auto

subsection \<open>Properties of construction\<close>

text \<open>C10: the constructor never raises and builds an AVL object whose in-order key
  sequence is the sorted list of the distinct keys of the dataset.\<close>

theorem AVLTree_init_correct:
  "\<exists>t. AVLTree_init xs = Inr t \<and> avl_invar t \<and>
       inorder (tree_of t) = sorted_list_of_set (set xs)"
proof -
  obtain t where t: "insert_all empty_node xs = Inr t" "avl_invar t"
    "tree_of t = fold ins_spec xs Leaf"
    using insert_all_invar [OF avl_invar_empty_node, of xs] by auto
  then have "inorder (tree_of t) = sorted_list_of_set (set xs)"
    by (simp add: inorder_fold_ins_spec fold_ins_list_Nil)
  with t show ?thesis by (auto simp: AVLTree_init_def)
qed

text \<open>C11: the constructor refines the abstract construction: its abstract tree is the
  textbook AVL insertion folded over the dataset in the dataset's order.\<close>

theorem AVLTree_init_refines:
  "\<exists>t. AVLTree_init xs = Inr t \<and> tree_of t = fold ins_spec xs Leaf"
  using insert_all_invar [OF avl_invar_empty_node, of xs] by (auto simp: AVLTree_init_def)

subsection \<open>The demo's output\<close>

text \<open>What \<^verbatim>\<open>avl_demo\<close> prints, computed line by line: each object as
  \<open>data, height, skew\<close>, each child block indented by two spaces. The root line
  \<open>4, 4, -1\<close> shows the height 4 of the demo tree, where spec section 8 says 3.\<close>

theorem avl_demo_prints:
  "map_sum id (py_split newline) avl_demo_output =
     Inr
       [''4, 4, -1'',
        ''  left: 2, 3, -1'',
        ''    left: 1, 2, -1'',
        ''      left: -1, 1, 0'',
        ''        left: None'',
        ''        right: None'',
        ''      right: None'',
        ''    right: 3, 1, 0'',
        ''      left: None'',
        ''      right: None'',
        ''  right: 6, 2, 0'',
        ''    left: 5, 1, 0'',
        ''      left: None'',
        ''      right: None'',
        ''    right: 8, 1, 0'',
        ''      left: None'',
        ''      right: None'',
        '''']"
  by code_simp

end
