(* ===== verification/AVL_Heap_Insert.thy ===== *)
theory AVL_Heap_Insert
  imports AVL_Heap AVL_Build
begin

text \<open>
  \<^verbatim>\<open>insert\<close> and \<^verbatim>\<open>__init__\<close> of \<^verbatim>\<open>src/trees.py\<close> over the store of theory
  \<open>AVL_Heap\<close>, with allocation: the store is threaded with its next free address, and
  \<^verbatim>\<open>AVLTree([data])\<close> creates an object there. \<open>h_insert\<close> follows the child attributes
  and is a partial function; the lemmas show that on the objects of a node it returns,
  and that it implements \<open>AVLTree_insert\<close> on every branch (\<open>h_insert_rel\<close>), the new
  objects being exactly the allocated addresses; the constructor likewise implements
  \<open>AVLTree_init\<close>.
\<close>

text \<open>A fresh object as \<^verbatim>\<open>__init__\<close> leaves it before its loop (lines 3--7).\<close>

definition new_obj :: "'a obj" where
  "new_obj = \<lparr>obj_data = None, obj_left = None, obj_right = None, obj_height = 0\<rparr>"

text \<open>\<^verbatim>\<open>insert\<close> through the store. Besides the store it threads the next free address:
  \<^verbatim>\<open>AVLTree([data])\<close> allocates a fresh object there and runs \<^verbatim>\<open>__init__\<close> on it, whose
  loop makes one call of \<^verbatim>\<open>insert\<close> (its flag is dropped). The recursion follows the child
  attributes, so on an arbitrary store (a cycle) it need not end: the function is partial,
  and \<open>None\<close> is also the value of a call that does not return. An exception of
  \<^verbatim>\<open>_balance_update\<close> propagates as \<open>Inl\<close>; the objects it leaves behind are not kept.\<close>

partial_function (option) h_insert ::
  "'a::linorder \<Rightarrow> 'a heap \<Rightarrow> nat \<Rightarrow> nat \<Rightarrow> ('a heap \<times> nat \<times> bool) result option" where
  "h_insert x hp n p =
     do {
       s \<leftarrow> hp p;
       (case obj_data s of
          None \<Rightarrow> Some (Inr (hp(p \<mapsto> s\<lparr>obj_data := Some x, obj_height := 1\<rparr>), n, False))
        | Some a \<Rightarrow>
            if x < a then
              (case obj_left s of
                 None \<Rightarrow>
                   do {
                     r \<leftarrow> h_insert x (hp(n \<mapsto> new_obj)) (Suc n) n;
                     (case r of
                        Inl e \<Rightarrow> Some (Inl e)
                      | Inr (hp, n', _) \<Rightarrow>
                          do {
                            s \<leftarrow> hp p;
                            let hp = hp(p \<mapsto> s\<lparr>obj_left := Some n\<rparr>);
                            s \<leftarrow> hp p;
                            let height_increased = (obj_right s = None);
                            Some (Inr (hp(p \<mapsto> s\<lparr>obj_height := obj_height s + (if height_increased then 1 else 0)\<rparr>),
                                       n', True))
                          })
                   }
               | Some lp \<Rightarrow>
                   do {
                     right_height \<leftarrow> child_height hp (obj_right s);
                     r \<leftarrow> h_insert x hp n lp;
                     (case r of
                        Inl e \<Rightarrow> Some (Inl e)
                      | Inr (hp, n', changed) \<Rightarrow>
                          if changed then
                            do {
                              s \<leftarrow> hp p;
                              left_height \<leftarrow> child_height hp (obj_left s);
                              let hp = hp(p \<mapsto> s\<lparr>obj_height := max right_height left_height + 1\<rparr>);
                              r \<leftarrow> h_balance_update hp p;
                              (case r of Inl e \<Rightarrow> Some (Inl e) | Inr hp \<Rightarrow> Some (Inr (hp, n', True)))
                            }
                          else Some (Inr (hp, n', False)))
                   })
            else if a < x then
              (case obj_right s of
                 None \<Rightarrow>
                   do {
                     r \<leftarrow> h_insert x (hp(n \<mapsto> new_obj)) (Suc n) n;
                     (case r of
                        Inl e \<Rightarrow> Some (Inl e)
                      | Inr (hp, n', _) \<Rightarrow>
                          do {
                            s \<leftarrow> hp p;
                            let hp = hp(p \<mapsto> s\<lparr>obj_right := Some n\<rparr>);
                            s \<leftarrow> hp p;
                            let height_increased = (obj_left s = None);
                            Some (Inr (hp(p \<mapsto> s\<lparr>obj_height := obj_height s + (if height_increased then 1 else 0)\<rparr>),
                                       n', True))
                          })
                   }
               | Some rp \<Rightarrow>
                   do {
                     left_height \<leftarrow> child_height hp (obj_left s);
                     r \<leftarrow> h_insert x hp n rp;
                     (case r of
                        Inl e \<Rightarrow> Some (Inl e)
                      | Inr (hp, n', changed) \<Rightarrow>
                          if changed then
                            do {
                              s \<leftarrow> hp p;
                              right_height \<leftarrow> child_height hp (obj_right s);
                              let hp = hp(p \<mapsto> s\<lparr>obj_height := max left_height right_height + 1\<rparr>);
                              r \<leftarrow> h_balance_update hp p;
                              (case r of Inl e \<Rightarrow> Some (Inl e) | Inr hp \<Rightarrow> Some (Inr (hp, n', True)))
                            }
                          else Some (Inr (hp, n', False)))
                   })
            else Some (Inr (hp, n, False)))
     }"

text \<open>\<^verbatim>\<open>AVLTree(dataset)\<close>: a fresh object at the next free address, then the loop of
  \<^verbatim>\<open>__init__\<close> (lines 8--9) calling \<^verbatim>\<open>insert\<close> on it for each element in order. The
  constructor returns the address of the new object.\<close>

fun h_insert_all :: "'a::linorder list \<Rightarrow> 'a heap \<Rightarrow> nat \<Rightarrow> nat \<Rightarrow> ('a heap \<times> nat) result option" where
  "h_insert_all [] hp n p = Some (Inr (hp, n))"
| "h_insert_all (x # xs) hp n p =
     do {
       r \<leftarrow> h_insert x hp n p;
       (case r of Inl e \<Rightarrow> Some (Inl e) | Inr (hp, n, _) \<Rightarrow> h_insert_all xs hp n p)
     }"

definition h_AVLTree_init :: "'a::linorder list \<Rightarrow> 'a heap \<Rightarrow> nat \<Rightarrow> (nat \<times> 'a heap \<times> nat) result option" where
  "h_AVLTree_init dataset hp n =
     do {
       r \<leftarrow> h_insert_all dataset (hp(n \<mapsto> new_obj)) (Suc n) n;
       (case r of Inl e \<Rightarrow> Some (Inl e) | Inr (hp, n') \<Rightarrow> Some (Inr (n, hp, n')))
     }"

text \<open>No object at or above address \<open>n\<close>: \<open>n\<close> is a valid next free address.\<close>

definition fresh_from :: "'a heap \<Rightarrow> nat \<Rightarrow> bool" where
  "fresh_from hp n \<longleftrightarrow> (\<forall>q. n \<le> q \<longrightarrow> hp q = None)"

text \<open>How a result of \<open>h_insert\<close> corresponds to one of \<open>AVLTree_insert\<close>: the same error,
  or the same flag and a store in which the node at \<open>p\<close> forms the new value over its old
  objects and the newly allocated ones, with the next free address valid and every
  other old object unchanged.\<close>

definition ins_rel :: "'a heap \<Rightarrow> nat \<Rightarrow> nat \<Rightarrow> nat set \<Rightarrow> ('a avltree \<times> bool) result \<Rightarrow>
    ('a heap \<times> nat \<times> bool) result \<Rightarrow> bool" where
  "ins_rel hp n p S v res =
     (case v of
        Inl e \<Rightarrow> res = Inl e
      | Inr (t', b) \<Rightarrow>
          (\<exists>hp' n'. res = Inr (hp', n', b) \<and> n \<le> n' \<and> heap_rep hp' p t' (S \<union> {n..<n'}) \<and>
             fresh_from hp' n' \<and> (\<forall>q. q \<notin> S \<longrightarrow> q < n \<longrightarrow> hp' q = hp q)))"

inductive_cases heap_rep_AVLTreeE: "heap_rep hp p (AVLTree d l r h) S"

lemma rep_dom:
  "heap_rep hp p t S \<Longrightarrow> S \<subseteq> dom hp"
  "child_rep hp c u S \<Longrightarrow> S \<subseteq> dom hp"
  by (induction rule: heap_rep_child_rep.inducts) auto

lemma rep_below:
  assumes "heap_rep hp p t S" "fresh_from hp n"
  shows "S \<subseteq> {..<n}"
proof
  fix q assume "q \<in> S"
  with rep_dom(1) [OF assms(1)] have "hp q \<noteq> None" by auto
  with assms(2) show "q \<in> {..<n}" by (auto simp: fresh_from_def not_less [symmetric])
qed

lemma rep_node_data:
  "heap_rep hp p (AVLTree d l r h) S \<Longrightarrow> hp p = Some s \<Longrightarrow> obj_data s = d \<and> obj_height s = h"
  by (erule heap_rep_AVLTreeE) auto

text \<open>Writing the root object with the same child attributes.\<close>

lemma rep_update_root:
  assumes "heap_rep hp p (AVLTree d l r h) S" "hp p = Some s"
    "obj_left s' = obj_left s" "obj_right s' = obj_right s"
  shows "heap_rep (hp(p \<mapsto> s')) p (AVLTree (obj_data s') l r (obj_height s')) S"
proof -
  from assms(1) obtain s0 A B where "hp p = Some s0" and S: "S = insert p (A \<union> B)"
    and cl: "child_rep hp (obj_left s0) l A" and cr: "child_rep hp (obj_right s0) r B"
    and disj: "p \<notin> A" "p \<notin> B" "A \<inter> B = {}"
    by (rule heap_rep_AVLTreeE) auto
  then have s0: "s0 = s" using assms(2) by simp
  have "child_rep (hp(p \<mapsto> s')) (obj_left s') l A"
    using rep_frame_ball(2) [OF cl, of "hp(p \<mapsto> s')"] disj s0 assms(3) by auto
  moreover have "child_rep (hp(p \<mapsto> s')) (obj_right s') r B"
    using rep_frame_ball(2) [OF cr, of "hp(p \<mapsto> s')"] disj s0 assms(4) by auto
  ultimately show ?thesis
    using heap_rep_child_rep.node [of "hp(p \<mapsto> s')" p s' l A r B] disj S by simp
qed

text \<open>\<^verbatim>\<open>AVLTree([data])\<close>: the fresh object at \<open>n\<close> receives the key and height 1.\<close>

lemma h_insert_new:
  "h_insert x (hp(n \<mapsto> new_obj)) (Suc n) n =
     Some (Inr (hp(n \<mapsto> new_obj\<lparr>obj_data := Some x, obj_height := 1\<rparr>), Suc n, False))"
  by (subst h_insert.simps) (simp add: new_obj_def)

text \<open>The tail of the recursive branches: the height write and \<^verbatim>\<open>_balance_update\<close>.\<close>

lemma h_insert_rebalance:
  assumes rep: "heap_rep hp p (AVLTree d l r h) S" and hs: "hp p = Some s"
    and fr: "fresh_from hp n" and h': "h' = max (node_height l) (node_height r) + 1"
  shows "\<exists>res. h_balance_update (hp(p \<mapsto> s\<lparr>obj_height := h'\<rparr>)) p = Some res \<and>
           (case balance_update (AVLTree d l r h') of
              Inl e \<Rightarrow> res = Inl e
            | Inr t' \<Rightarrow> (\<exists>hp'. res = Inr hp' \<and> heap_rep hp' p t' S \<and> fresh_from hp' n \<and>
                           (\<forall>q. q \<notin> S \<longrightarrow> hp' q = hp q)))"
proof -
  have rep2: "heap_rep (hp(p \<mapsto> s\<lparr>obj_height := h'\<rparr>)) p (AVLTree d l r h') S"
    using rep_update_root [OF rep hs, of "s\<lparr>obj_height := h'\<rparr>"] rep_node_data [OF rep hs] by simp
  have pS: "p \<in> S" using rep_root [OF rep] by blast
  from h_balance_update_rel [OF rep2] obtain res where
    res: "h_balance_update (hp(p \<mapsto> s\<lparr>obj_height := h'\<rparr>)) p = Some res"
      "res_rel (hp(p \<mapsto> s\<lparr>obj_height := h'\<rparr>)) p S (balance_update (AVLTree d l r h')) res" by blast
  have "n \<le> q \<Longrightarrow> q \<notin> S" for q using rep_below [OF rep fr] by auto
  with res pS fr show ?thesis
    by (auto simp: res_rel_def fresh_from_def split: sum.splits)
qed

text \<open>The recursive branch \<^verbatim>\<open>data < self.data\<close>, \<^verbatim>\<open>self.left\<close> not \<open>None\<close> (lines 29--34),
  given the refinement for the call on the left child.\<close>

lemma h_insert_left_rec:
  assumes rep: "heap_rep hp p (AVLTree (Some a) (Some lt) r h) S" and fr: "fresh_from hp n" and xa: "x < a"
    and ih: "\<And>hp n q A. heap_rep hp q lt A \<Longrightarrow> fresh_from hp n \<Longrightarrow>
               \<exists>res. h_insert x hp n q = Some res \<and> ins_rel hp n q A (AVLTree_insert x lt) res"
  shows "\<exists>res. h_insert x hp n p = Some res \<and>
           ins_rel hp n p S (AVLTree_insert x (AVLTree (Some a) (Some lt) r h)) res"
proof -
  from rep obtain s A B where hs: "hp p = Some s" and d: "obj_data s = Some a" "obj_height s = h"
    and S: "S = insert p (A \<union> B)" and cl: "child_rep hp (obj_left s) (Some lt) A"
    and cr: "child_rep hp (obj_right s) r B" and disj: "p \<notin> A" "p \<notin> B" "A \<inter> B = {}"
    by (rule heap_rep_AVLTreeE) auto
  from cl obtain lp where lp: "obj_left s = Some lp" and rl: "heap_rep hp lp lt A"
    by (cases "obj_left s") (auto simp: child_rep_None_iff child_rep_Some_iff)
  have below: "S \<subseteq> {..<n}" by (rule rep_below [OF rep fr])
  have rh: "child_height hp (obj_right s) = Some (node_height r)" by (rule child_height_rep [OF cr refl])
  from ih [OF rl fr] obtain res1 where
    res1: "h_insert x hp n lp = Some res1" "ins_rel hp n lp A (AVLTree_insert x lt) res1" by blast
  have unf: "h_insert x hp n p =
     do {
       rs \<leftarrow> h_insert x hp n lp;
       (case rs of
          Inl e \<Rightarrow> Some (Inl e)
        | Inr (hp, n', changed) \<Rightarrow>
            if changed then
              do {
                s \<leftarrow> hp p;
                left_height \<leftarrow> child_height hp (obj_left s);
                let hp = hp(p \<mapsto> s\<lparr>obj_height := max (node_height r) left_height + 1\<rparr>);
                rb \<leftarrow> h_balance_update hp p;
                (case rb of Inl e \<Rightarrow> Some (Inl e) | Inr hp \<Rightarrow> Some (Inr (hp, n', True)))
              }
            else Some (Inr (hp, n', False)))
     }"
    by (subst h_insert.simps) (simp add: hs d lp xa rh)
  show ?thesis
  proof (cases "AVLTree_insert x lt")
    case (Inl e)
    with res1 xa show ?thesis by (simp add: unf ins_rel_def)
  next
    case (Inr v)
    then obtain lt' changed where v: "AVLTree_insert x lt = Inr (lt', changed)" by (cases v) auto
    with res1 obtain hp1 n1 where r1: "res1 = Inr (hp1, n1, changed)" "n \<le> n1"
      "heap_rep hp1 lp lt' (A \<union> {n..<n1})" "fresh_from hp1 n1" "\<forall>q. q \<notin> A \<longrightarrow> q < n \<longrightarrow> hp1 q = hp q"
      by (auto simp: ins_rel_def)
    have same: "\<forall>q\<in>S - A. hp1 q = hp q" using r1(5) below by auto
    have "heap_rep hp1 p (AVLTree (Some a) (Some lt') r h) (S - A \<union> (A \<union> {n..<n1}))"
      by (rule rep_replace_left [OF rep hs lp rl r1(3) _ same]) (use below in auto)
    moreover have "S - A \<union> (A \<union> {n..<n1}) = S \<union> {n..<n1}" using S by auto
    ultimately have rep1: "heap_rep hp1 p (AVLTree (Some a) (Some lt') r h) (S \<union> {n..<n1})" by simp
    have hs1: "hp1 p = Some s" using same hs S disj(1) by auto
    have frame1: "\<forall>q. q \<notin> S \<longrightarrow> q < n \<longrightarrow> hp1 q = hp q" using r1(5) S by auto
    show ?thesis
    proof (cases changed)
      case False
      with res1(1) r1 rep1 frame1 v xa show ?thesis by (simp add: unf ins_rel_def)
    next
      case True
      have lh: "child_height hp1 (obj_left s) = Some (ht lt')"
        using rep_root [OF r1(3)] lp by auto
      have fr1: "fresh_from hp1 n1" by (rule r1(4))
      from h_insert_rebalance [OF rep1 hs1 fr1, of "max (node_height r) (ht lt') + 1"]
      obtain res where
        res: "h_balance_update (hp1(p \<mapsto> s\<lparr>obj_height := max (node_height r) (ht lt') + 1\<rparr>)) p = Some res"
          "case balance_update (AVLTree (Some a) (Some lt') r (max (node_height r) (ht lt') + 1)) of
             Inl e \<Rightarrow> res = Inl e
           | Inr t' \<Rightarrow> (\<exists>hp'. res = Inr hp' \<and> heap_rep hp' p t' (S \<union> {n..<n1}) \<and> fresh_from hp' n1 \<and>
                          (\<forall>q. q \<notin> S \<union> {n..<n1} \<longrightarrow> hp' q = hp1 q))"
        by (auto simp: max.commute)
      have "h_insert x hp n p = (case res of Inl e \<Rightarrow> Some (Inl e) | Inr hp' \<Rightarrow> Some (Inr (hp', n1, True)))"
        using res1(1) r1(1) True hs1 lh res(1) by (simp add: unf)
      with res(2) True v xa r1(2) frame1 show ?thesis
        by (auto simp: ins_rel_def split: sum.splits)
    qed
  qed
qed

text \<open>The recursive branch \<^verbatim>\<open>data > self.data\<close>, \<^verbatim>\<open>self.right\<close> not \<open>None\<close> (lines 42--47).\<close>

lemma h_insert_right_rec:
  assumes rep: "heap_rep hp p (AVLTree (Some a) l (Some rt) h) S" and fr: "fresh_from hp n" and xa: "a < x"
    and ih: "\<And>hp n q B. heap_rep hp q rt B \<Longrightarrow> fresh_from hp n \<Longrightarrow>
               \<exists>res. h_insert x hp n q = Some res \<and> ins_rel hp n q B (AVLTree_insert x rt) res"
  shows "\<exists>res. h_insert x hp n p = Some res \<and>
           ins_rel hp n p S (AVLTree_insert x (AVLTree (Some a) l (Some rt) h)) res"
proof -
  from rep obtain s A B where hs: "hp p = Some s" and d: "obj_data s = Some a" "obj_height s = h"
    and S: "S = insert p (A \<union> B)" and cl: "child_rep hp (obj_left s) l A"
    and cr: "child_rep hp (obj_right s) (Some rt) B" and disj: "p \<notin> A" "p \<notin> B" "A \<inter> B = {}"
    by (rule heap_rep_AVLTreeE) auto
  from cr obtain rp where rp: "obj_right s = Some rp" and rr: "heap_rep hp rp rt B"
    by (cases "obj_right s") (auto simp: child_rep_None_iff child_rep_Some_iff)
  have nxa: "\<not> x < a" using xa by simp
  have below: "S \<subseteq> {..<n}" by (rule rep_below [OF rep fr])
  have lh: "child_height hp (obj_left s) = Some (node_height l)" by (rule child_height_rep [OF cl refl])
  from ih [OF rr fr] obtain res1 where
    res1: "h_insert x hp n rp = Some res1" "ins_rel hp n rp B (AVLTree_insert x rt) res1" by blast
  have unf: "h_insert x hp n p =
     do {
       rs \<leftarrow> h_insert x hp n rp;
       (case rs of
          Inl e \<Rightarrow> Some (Inl e)
        | Inr (hp, n', changed) \<Rightarrow>
            if changed then
              do {
                s \<leftarrow> hp p;
                right_height \<leftarrow> child_height hp (obj_right s);
                let hp = hp(p \<mapsto> s\<lparr>obj_height := max (node_height l) right_height + 1\<rparr>);
                rb \<leftarrow> h_balance_update hp p;
                (case rb of Inl e \<Rightarrow> Some (Inl e) | Inr hp \<Rightarrow> Some (Inr (hp, n', True)))
              }
            else Some (Inr (hp, n', False)))
     }"
    by (subst h_insert.simps) (simp add: hs d rp xa nxa lh)
  show ?thesis
  proof (cases "AVLTree_insert x rt")
    case (Inl e)
    with res1 xa nxa show ?thesis by (simp add: unf ins_rel_def)
  next
    case (Inr v)
    then obtain rt' changed where v: "AVLTree_insert x rt = Inr (rt', changed)" by (cases v) auto
    with res1 obtain hp1 n1 where r1: "res1 = Inr (hp1, n1, changed)" "n \<le> n1"
      "heap_rep hp1 rp rt' (B \<union> {n..<n1})" "fresh_from hp1 n1" "\<forall>q. q \<notin> B \<longrightarrow> q < n \<longrightarrow> hp1 q = hp q"
      by (auto simp: ins_rel_def)
    have same: "\<forall>q\<in>S - B. hp1 q = hp q" using r1(5) below by auto
    have "heap_rep hp1 p (AVLTree (Some a) l (Some rt') h) (S - B \<union> (B \<union> {n..<n1}))"
      by (rule rep_replace_right [OF rep hs rp rr r1(3) _ same]) (use below in auto)
    moreover have "S - B \<union> (B \<union> {n..<n1}) = S \<union> {n..<n1}" using S by auto
    ultimately have rep1: "heap_rep hp1 p (AVLTree (Some a) l (Some rt') h) (S \<union> {n..<n1})" by simp
    have hs1: "hp1 p = Some s" using same hs S disj(2) by auto
    have frame1: "\<forall>q. q \<notin> S \<longrightarrow> q < n \<longrightarrow> hp1 q = hp q" using r1(5) S by auto
    show ?thesis
    proof (cases changed)
      case False
      with res1(1) r1 rep1 frame1 v xa nxa show ?thesis by (simp add: unf ins_rel_def)
    next
      case True
      have rh: "child_height hp1 (obj_right s) = Some (ht rt')"
        using rep_root [OF r1(3)] rp by auto
      have fr1: "fresh_from hp1 n1" by (rule r1(4))
      from h_insert_rebalance [OF rep1 hs1 fr1, of "max (node_height l) (ht rt') + 1"]
      obtain res where
        res: "h_balance_update (hp1(p \<mapsto> s\<lparr>obj_height := max (node_height l) (ht rt') + 1\<rparr>)) p = Some res"
          "case balance_update (AVLTree (Some a) l (Some rt') (max (node_height l) (ht rt') + 1)) of
             Inl e \<Rightarrow> res = Inl e
           | Inr t' \<Rightarrow> (\<exists>hp'. res = Inr hp' \<and> heap_rep hp' p t' (S \<union> {n..<n1}) \<and> fresh_from hp' n1 \<and>
                          (\<forall>q. q \<notin> S \<union> {n..<n1} \<longrightarrow> hp' q = hp1 q))"
        by auto
      have "h_insert x hp n p = (case res of Inl e \<Rightarrow> Some (Inl e) | Inr hp' \<Rightarrow> Some (Inr (hp', n1, True)))"
        using res1(1) r1(1) True hs1 rh res(1) by (simp add: unf)
      with res(2) True v xa nxa r1(2) frame1 show ?thesis
        by (auto simp: ins_rel_def split: sum.splits)
    qed
  qed
qed

lemma heap_rep_leaf:
  "hp q = Some ob \<Longrightarrow> obj_left ob = None \<Longrightarrow> obj_right ob = None \<Longrightarrow>
     heap_rep hp q (AVLTree (obj_data ob) None None (obj_height ob)) {q}"
  using heap_rep_child_rep.node [of hp q ob None "{}" None "{}"] by (simp add: no_child)

text \<open>The allocating branch \<^verbatim>\<open>data < self.data\<close>, \<^verbatim>\<open>self.left is None\<close> (lines 23--27).\<close>

lemma h_insert_left_new:
  assumes rep: "heap_rep hp p (AVLTree (Some a) None r h) S" and fr: "fresh_from hp n" and xa: "x < a"
  shows "\<exists>res. h_insert x hp n p = Some res \<and>
           ins_rel hp n p S (AVLTree_insert x (AVLTree (Some a) None r h)) res"
proof -
  from rep obtain s B where hs: "hp p = Some s" and d: "obj_data s = Some a" "obj_height s = h"
    and S: "S = insert p B" and cl: "obj_left s = None"
    and cr: "child_rep hp (obj_right s) r B" and disj: "p \<notin> B"
    by (rule heap_rep_AVLTreeE) (auto simp: child_rep_None_val)
  have below: "S \<subseteq> {..<n}" by (rule rep_below [OF rep fr])
  then have np: "n \<noteq> p" "n \<notin> B" using S by auto
  have rn: "obj_right s = None \<longleftrightarrow> r = None" using rep_children [OF rep hs] by simp
  let ?N = "new_obj\<lparr>obj_data := Some x, obj_height := 1\<rparr>"
  let ?s' = "s\<lparr>obj_left := Some n, obj_height := h + (if r = None then 1 else 0)\<rparr>"
  let ?H = "hp(n \<mapsto> ?N, p \<mapsto> ?s')"
  have "h_insert x hp n p = Some (Inr (?H, Suc n, True))"
    using np(1) rn by (subst h_insert.simps) (simp add: hs d xa cl h_insert_new)
  moreover have "heap_rep ?H p (AVLTree (Some a) (Some (AVLTree (Some x) None None 1)) r
                   (h + (if r = None then 1 else 0))) (insert p ({n} \<union> B))"
  proof -
    have "heap_rep ?H n (AVLTree (Some x) None None 1) {n}"
      using heap_rep_leaf [of ?H n ?N] np(1) by (simp add: new_obj_def)
    then have "child_rep ?H (obj_left ?s') (Some (AVLTree (Some x) None None 1)) {n}" by (simp add: child)
    moreover have "child_rep ?H (obj_right ?s') r B"
    proof -
      have "\<forall>q\<in>B. ?H q = hp q" using np disj by auto
      from rep_frame_ball(2) [OF cr this] have "child_rep ?H (obj_right s) r B" .
      moreover have "obj_right ?s' = obj_right s" by simp
      ultimately show ?thesis by (simp only:)
    qed
    ultimately show ?thesis
      using heap_rep_child_rep.node [of ?H p ?s' _ "{n}" r B] np disj d by simp
  qed
  moreover have "insert p ({n} \<union> B) = S \<union> {n..<Suc n}" using S by auto
  moreover have "fresh_from ?H (Suc n)" using fr np below S by (auto simp: fresh_from_def)
  ultimately show ?thesis using xa np S by (auto simp: ins_rel_def)
qed

text \<open>The allocating branch \<^verbatim>\<open>data > self.data\<close>, \<^verbatim>\<open>self.right is None\<close> (lines 36--40).\<close>

lemma h_insert_right_new:
  assumes rep: "heap_rep hp p (AVLTree (Some a) l None h) S" and fr: "fresh_from hp n" and xa: "a < x"
  shows "\<exists>res. h_insert x hp n p = Some res \<and>
           ins_rel hp n p S (AVLTree_insert x (AVLTree (Some a) l None h)) res"
proof -
  from rep obtain s A where hs: "hp p = Some s" and d: "obj_data s = Some a" "obj_height s = h"
    and S: "S = insert p A" and cr: "obj_right s = None"
    and cl: "child_rep hp (obj_left s) l A" and disj: "p \<notin> A"
    by (rule heap_rep_AVLTreeE) (auto simp: child_rep_None_val)
  have nxa: "\<not> x < a" using xa by simp
  have below: "S \<subseteq> {..<n}" by (rule rep_below [OF rep fr])
  then have np: "n \<noteq> p" "n \<notin> A" using S by auto
  have ln: "obj_left s = None \<longleftrightarrow> l = None" using rep_children [OF rep hs] by simp
  let ?N = "new_obj\<lparr>obj_data := Some x, obj_height := 1\<rparr>"
  let ?s' = "s\<lparr>obj_right := Some n, obj_height := h + (if l = None then 1 else 0)\<rparr>"
  let ?H = "hp(n \<mapsto> ?N, p \<mapsto> ?s')"
  have "h_insert x hp n p = Some (Inr (?H, Suc n, True))"
    using np(1) ln by (subst h_insert.simps) (simp add: hs d xa nxa cr h_insert_new)
  moreover have "heap_rep ?H p (AVLTree (Some a) l (Some (AVLTree (Some x) None None 1))
                   (h + (if l = None then 1 else 0))) (insert p (A \<union> {n}))"
  proof -
    have "heap_rep ?H n (AVLTree (Some x) None None 1) {n}"
      using heap_rep_leaf [of ?H n ?N] np(1) by (simp add: new_obj_def)
    then have "child_rep ?H (obj_right ?s') (Some (AVLTree (Some x) None None 1)) {n}" by (simp add: child)
    moreover have "child_rep ?H (obj_left ?s') l A"
    proof -
      have "\<forall>q\<in>A. ?H q = hp q" using np disj by auto
      from rep_frame_ball(2) [OF cl this] have "child_rep ?H (obj_left s) l A" .
      moreover have "obj_left ?s' = obj_left s" by simp
      ultimately show ?thesis by (simp only:)
    qed
    ultimately show ?thesis
      using heap_rep_child_rep.node [of ?H p ?s' l A _ "{n}"] np disj d by simp
  qed
  moreover have "insert p (A \<union> {n}) = S \<union> {n..<Suc n}" using S by auto
  moreover have "fresh_from ?H (Suc n)" using fr np below S by (auto simp: fresh_from_def)
  ultimately show ?thesis using xa nxa np S by (auto simp: ins_rel_def)
qed

text \<open>\<^verbatim>\<open>insert\<close> on the store refines \<open>AVLTree_insert\<close> on every branch: on a node that
  represents \<open>t\<close>, with a valid next free address, the call returns, with the error of
  \<open>AVLTree_insert x t\<close> or with its flag and a store representing its tree.\<close>

lemma h_insert_rel:
  "heap_rep hp p t S \<Longrightarrow> fresh_from hp n \<Longrightarrow>
     \<exists>res. h_insert x hp n p = Some res \<and> ins_rel hp n p S (AVLTree_insert x t) res"
proof (induction x t arbitrary: hp n p S rule: AVLTree_insert.induct)
  case (1 x d l r h)
  show ?case
  proof (cases d)
    case None
    from "1.prems"(1) obtain s where hs: "hp p = Some s" and d: "obj_data s = d" "obj_height s = h"
      by (rule heap_rep_AVLTreeE) auto
    let ?s' = "s\<lparr>obj_data := Some x, obj_height := 1\<rparr>"
    have "heap_rep (hp(p \<mapsto> ?s')) p (AVLTree (obj_data ?s') l r (obj_height ?s')) S"
      by (rule rep_update_root [OF "1.prems"(1) hs]) simp_all
    moreover have "fresh_from (hp(p \<mapsto> ?s')) n"
      using "1.prems" rep_below [OF "1.prems"] rep_root [OF "1.prems"(1)] by (auto simp: fresh_from_def)
    moreover have "p \<in> S" using rep_root [OF "1.prems"(1)] by blast
    ultimately show ?thesis using None hs d
      by (subst h_insert.simps) (simp add: ins_rel_def)
  next
    case (Some a)
    consider (lt) "x < a" | (gt) "a < x" | (eq) "x = a" by fastforce
    then show ?thesis
    proof cases
      case lt
      show ?thesis
      proof (cases l)
        case None
        have rep: "heap_rep hp p (AVLTree (Some a) None r h) S" using "1.prems"(1) None Some by simp
        show ?thesis unfolding None \<open>d = Some a\<close> by (rule h_insert_left_new [OF rep "1.prems"(2) lt])
      next
        case (Some lt0)
        have rep: "heap_rep hp p (AVLTree (Some a) (Some lt0) r h) S" using "1.prems"(1) Some \<open>d = Some a\<close> by simp
        show ?thesis unfolding Some \<open>d = Some a\<close>
          by (rule h_insert_left_rec [OF rep "1.prems"(2) lt "1.IH"(1) [OF \<open>d = Some a\<close> lt Some refl]])
      qed
    next
      case gt
      show ?thesis
      proof (cases r)
        case None
        have rep: "heap_rep hp p (AVLTree (Some a) l None h) S" using "1.prems"(1) None Some by simp
        show ?thesis unfolding None \<open>d = Some a\<close> by (rule h_insert_right_new [OF rep "1.prems"(2) gt])
      next
        case (Some rt0)
        have nlt: "\<not> x < a" using gt by simp
        have rep: "heap_rep hp p (AVLTree (Some a) l (Some rt0) h) S" using "1.prems"(1) Some \<open>d = Some a\<close> by simp
        show ?thesis unfolding Some \<open>d = Some a\<close>
          by (rule h_insert_right_rec [OF rep "1.prems"(2) gt "1.IH"(2) [OF \<open>d = Some a\<close> nlt gt Some refl]])
      qed
    next
      case eq
      from "1.prems"(1) obtain s where hs: "hp p = Some s" and d: "obj_data s = d"
        by (rule heap_rep_AVLTreeE) auto
      with eq Some "1.prems" show ?thesis
        by (subst h_insert.simps) (simp add: ins_rel_def)
    qed
  qed
qed

lemma h_insert_all_rel:
  "heap_rep hp p t S \<Longrightarrow> fresh_from hp n \<Longrightarrow>
     \<exists>res. h_insert_all xs hp n p = Some res \<and>
       (case insert_all t xs of
          Inl e \<Rightarrow> res = Inl e
        | Inr t' \<Rightarrow> (\<exists>hp' n'. res = Inr (hp', n') \<and> n \<le> n' \<and> heap_rep hp' p t' (S \<union> {n..<n'}) \<and>
                       fresh_from hp' n' \<and> (\<forall>q. q \<notin> S \<longrightarrow> q < n \<longrightarrow> hp' q = hp q)))"
proof (induction xs arbitrary: t hp n S)
  case Nil
  then show ?case by simp
next
  case (Cons x xs)
  from h_insert_rel [OF Cons.prems, of x] obtain r1 where
    r1: "h_insert x hp n p = Some r1" "ins_rel hp n p S (AVLTree_insert x t) r1" by blast
  show ?case
  proof (cases "AVLTree_insert x t")
    case (Inl e)
    with r1 show ?thesis by (simp add: ins_rel_def)
  next
    case (Inr v)
    then obtain t1 b where v: "AVLTree_insert x t = Inr (t1, b)" by (cases v) auto
    with r1 obtain hp1 n1 where h1: "r1 = Inr (hp1, n1, b)" "n \<le> n1"
      "heap_rep hp1 p t1 (S \<union> {n..<n1})" "fresh_from hp1 n1" "\<forall>q. q \<notin> S \<longrightarrow> q < n \<longrightarrow> hp1 q = hp q"
      by (auto simp: ins_rel_def)
    from Cons.IH [OF h1(3,4)] obtain res where
      res: "h_insert_all xs hp1 n1 p = Some res"
        "case insert_all t1 xs of
           Inl e \<Rightarrow> res = Inl e
         | Inr t' \<Rightarrow> (\<exists>hp' n'. res = Inr (hp', n') \<and> n1 \<le> n' \<and> heap_rep hp' p t' (S \<union> {n..<n1} \<union> {n1..<n'}) \<and>
                        fresh_from hp' n' \<and> (\<forall>q. q \<notin> S \<union> {n..<n1} \<longrightarrow> q < n1 \<longrightarrow> hp' q = hp1 q))"
      by blast
    have un: "S \<union> {n..<n1} \<union> {n1..<n'} = S \<union> {n..<n'}" if "n1 \<le> n'" for n'
      using h1(2) that by auto
    show ?thesis
      using res r1(1) h1 v un by (auto simp: split: sum.splits)
  qed
qed

text \<open>One object per node.\<close>

lemma rep_card:
  "heap_rep hp p t S \<Longrightarrow> finite S \<and> card S = count_nodes t"
  "child_rep hp c u S \<Longrightarrow> finite S \<and> card S = (case u of None \<Rightarrow> 0 | Some t \<Rightarrow> count_nodes t)"
  by (induction rule: heap_rep_child_rep.inducts) (auto simp: card_Un_disjoint)

lemma count_nodes_avl_invar:
  "avl_invar t \<Longrightarrow> count_nodes t = max 1 (length (inorder (tree_of t)))"
proof -
  assume "avl_invar t"
  then consider "t = empty_node" | "nodes_ok t" by (auto simp: avl_invar_def)
  then show ?thesis
  proof cases
    case 1
    then have "tree_of t = Leaf" by (simp add: tree_of_empty_node)
    with 1 show ?thesis by (simp add: empty_node_def)
  next
    case 2
    then obtain L a R where "tree_of t = Node L a R" using tree_of_Node_ex by blast
    with 2 show ?thesis by (simp add: count_nodes_tree_of)
  qed
qed

subsection \<open>Properties of insertion on the store\<close>

text \<open>C13: \<^verbatim>\<open>insert\<close> run on the objects of an AVL object, with a valid next free
  address, returns without error; its flag says whether the key was new; afterwards the
  same object is the root of an AVL object whose in-order keys are the old ones with
  \<open>x\<close> inserted, over the old objects and the newly allocated ones; the next free address
  stays valid and no other object changes.\<close>

theorem h_insert_correct:
  assumes rep: "heap_rep hp p t S" and inv: "avl_invar t" and fr: "fresh_from hp n"
  shows "\<exists>hp' n' t'. h_insert x hp n p = Some (Inr (hp', n', t \<noteq> empty_node \<and> x \<notin> set_tree (tree_of t))) \<and>
           heap_rep hp' p t' (S \<union> {n..<n'}) \<and> avl_invar t' \<and>
           inorder (tree_of t') = ins_list x (inorder (tree_of t)) \<and>
           fresh_from hp' n' \<and> (\<forall>q. q \<notin> S \<longrightarrow> q < n \<longrightarrow> hp' q = hp q)"
proof -
  obtain t' where t': "AVLTree_insert x t = Inr (t', t \<noteq> empty_node \<and> x \<notin> set_tree (tree_of t))"
    "avl_invar t'" "tree_of t' = ins_spec x (tree_of t)"
    using AVLTree_insert_invar [OF inv] by blast
  have io: "inorder (tree_of t') = ins_list x (inorder (tree_of t))"
    using inv t'(3) by (simp add: avl_invar_def inorder_ins_spec bst_iff_sorted_wrt_less)
  from h_insert_rel [OF rep fr, of x] t'(1) obtain hp' n' where
    "h_insert x hp n p = Some (Inr (hp', n', t \<noteq> empty_node \<and> x \<notin> set_tree (tree_of t)))"
    "heap_rep hp' p t' (S \<union> {n..<n'})" "fresh_from hp' n'" "\<forall>q. q \<notin> S \<longrightarrow> q < n \<longrightarrow> hp' q = hp q"
    by (auto simp: ins_rel_def)
  with t'(2) io show ?thesis by blast
qed

theorem h_insert_correct_witness:
  "heap_rep [0 \<mapsto> \<lparr>obj_data = Some (2::int), obj_left = None, obj_right = None, obj_height = 1\<rparr>] 0
     (AVLTree (Some 2) None None 1) {0} \<and>
   avl_invar (AVLTree (Some (2::int)) None None 1) \<and>
   fresh_from [0 \<mapsto> \<lparr>obj_data = Some (2::int), obj_left = None, obj_right = None, obj_height = 1\<rparr>] 1 \<and>
   (\<exists>hp' n' t'. h_insert 1 [0 \<mapsto> \<lparr>obj_data = Some (2::int), obj_left = None, obj_right = None, obj_height = 1\<rparr>] 1 0
        = Some (Inr (hp', n', True)) \<and>
      heap_rep hp' 0 t' ({0} \<union> {1..<n'}) \<and> avl_invar t' \<and> inorder (tree_of t') = [1, 2])"
proof -
  let ?H = "[0 \<mapsto> \<lparr>obj_data = Some (2::int), obj_left = None, obj_right = None, obj_height = 1\<rparr>]"
  have rep: "heap_rep ?H 0 (AVLTree (Some 2) None None 1) {0}"
    using heap_rep_leaf [of ?H 0] by simp
  have inv: "avl_invar (AVLTree (Some (2::int)) None None 1)" by (simp add: avl_invar_def empty_node_def)
  have fr: "fresh_from ?H 1" by (simp add: fresh_from_def)
  from h_insert_correct [OF rep inv fr, of 1] rep inv fr show ?thesis
    by (simp add: empty_node_def) blast
qed

text \<open>C14: \<^verbatim>\<open>AVLTree(dataset)\<close> on the store returns without error the address of the
  object it allocated first, which is the root of an AVL object over exactly the
  addresses it allocated, one per distinct key (one for an empty dataset), whose in-order
  keys are the sorted distinct keys of the dataset; no object that existed before changes.\<close>

theorem h_AVLTree_init_correct:
  assumes fr: "fresh_from hp n"
  shows "\<exists>hp' n' t. h_AVLTree_init xs hp n = Some (Inr (n, hp', n')) \<and> heap_rep hp' n t {n..<n'} \<and>
           avl_invar t \<and> inorder (tree_of t) = sorted_list_of_set (set xs) \<and>
           n' - n = max 1 (card (set xs)) \<and> fresh_from hp' n' \<and> (\<forall>q<n. hp' q = hp q)"
proof -
  have rep0: "heap_rep (hp(n \<mapsto> new_obj)) n empty_node {n}"
    using heap_rep_leaf [of "hp(n \<mapsto> new_obj)" n new_obj] by (simp add: new_obj_def empty_node_def)
  have fr0: "fresh_from (hp(n \<mapsto> new_obj)) (Suc n)" using fr by (simp add: fresh_from_def)
  obtain t where t: "insert_all empty_node xs = Inr t" "avl_invar t" "tree_of t = fold ins_spec xs Leaf"
    using insert_all_invar [OF avl_invar_empty_node, of xs] by auto
  have io: "inorder (tree_of t) = sorted_list_of_set (set xs)"
    using t(3) by (simp add: inorder_fold_ins_spec fold_ins_list_Nil)
  from h_insert_all_rel [OF rep0 fr0, of xs] t(1) obtain hp' n' where
    h: "h_insert_all xs (hp(n \<mapsto> new_obj)) (Suc n) n = Some (Inr (hp', n'))" "Suc n \<le> n'"
      "heap_rep hp' n t ({n} \<union> {Suc n..<n'})" "fresh_from hp' n'"
      "\<forall>q. q \<notin> {n} \<longrightarrow> q < Suc n \<longrightarrow> hp' q = (hp(n \<mapsto> new_obj)) q"
    by auto
  have S: "{n} \<union> {Suc n..<n'} = {n..<n'}" using h(2) by auto
  have "n' - n = count_nodes t" using rep_card(1) [OF h(3)] S h(2) by simp
  also have "\<dots> = max 1 (card (set xs))" using count_nodes_avl_invar [OF t(2)] io by simp
  finally have card: "n' - n = max 1 (card (set xs))" .
  have "h_AVLTree_init xs hp n = Some (Inr (n, hp', n'))" using h(1) by (simp add: h_AVLTree_init_def)
  with h(3-5) S t(2) io card show ?thesis by auto
qed

theorem h_AVLTree_init_correct_witness:
  "fresh_from (Map.empty :: int heap) 0 \<and>
   (\<exists>hp' n' t. h_AVLTree_init [1, 2, 4, 3, 8, 5, 6, -1::int] Map.empty 0 = Some (Inr (0, hp', n')) \<and>
      heap_rep hp' 0 t {0..<n'} \<and> avl_invar t \<and> inorder (tree_of t) = [-1, 1, 2, 3, 4, 5, 6, 8] \<and>
      n' = 8)"
proof -
  have fr: "fresh_from (Map.empty :: int heap) 0" by (simp add: fresh_from_def)
  obtain hp' n' t where h: "h_AVLTree_init [1, 2, 4, 3, 8, 5, 6, -1::int] Map.empty 0 = Some (Inr (0, hp', n'))"
    "heap_rep hp' 0 t {0..<n'}" "avl_invar t"
    "inorder (tree_of t) = sorted_list_of_set (set [1, 2, 4, 3, 8, 5, 6, -1::int])"
    "n' - 0 = max 1 (card (set [1, 2, 4, 3, 8, 5, 6, -1::int]))"
    using h_AVLTree_init_correct [OF fr, of "[1, 2, 4, 3, 8, 5, 6, -1]"] by blast
  have "sorted_list_of_set (set [1, 2, 4, 3, 8, 5, 6, -1::int]) = [-1, 1, 2, 3, 4, 5, 6, 8]" by simp
  moreover have "max 1 (card (set [1, 2, 4, 3, 8, 5, 6, -1::int])) = 8" by simp
  ultimately show ?thesis using h fr by auto
qed

end
