(* ===== verification/Spec2Isabelle.thy ===== *)
theory Spec2Isabelle
  imports AVL_Heap_Insert
begin

text \<open>
  \<^bold>\<open>A verification development of \<^verbatim>\<open>src/trees.py\<close> (Aramist/algorithms): an AVL tree.\<close>

  \<^bold>\<open>The program.\<close> One Python class, \<^verbatim>\<open>AVLTree\<close>, is at once the tree and its
  node: an object holds \<^verbatim>\<open>data\<close> (\<^verbatim>\<open>None\<close> only in the empty tree), the child fields
  \<^verbatim>\<open>left\<close>, \<^verbatim>\<open>right\<close> (\<^verbatim>\<open>None\<close> or another object) and a cached \<^verbatim>\<open>height\<close>.
  \<^verbatim>\<open>__init__\<close> (lines 2--9) inserts a dataset in order; \<^verbatim>\<open>insert\<close> (11--50)
  descends, creates a leaf with \<^verbatim>\<open>AVLTree([data])\<close>, and on the way back recomputes the
  height and calls \<^verbatim>\<open>_balance_update\<close> (101--113), which reads \<^verbatim>\<open>skew\<close> (115--118)
  and calls \<^verbatim>\<open>_left_rotation\<close> (77--94) and \<^verbatim>\<open>_right_rotation\<close> (58--75); these
  rotate in place by relinking two objects and swapping \<^verbatim>\<open>data\<close> between them, and
  recompute heights with \<^verbatim>\<open>_recalc_height\<close> (96--99). \<^verbatim>\<open>delete\<close> and \<^verbatim>\<open>find\<close>
  are stubs; \<^verbatim>\<open>__repr__\<close> (120--125) renders a tree; \<^verbatim>\<open>avl_demo\<close> (128--143)
  builds and prints a fixed tree.

  \<^bold>\<open>Two models.\<close> The \<^emph>\<open>value model\<close> represents an object by the value
  \<open>datatype 'a avltree = AVLTree data left right height\<close>: exact as long as no object is
  shared, which the code never does. The \<^emph>\<open>store model\<close> keeps object identity: a
  store maps addresses to records of the four attributes, each method is translated
  statement by statement over it, and the relation \<open>heap_rep\<close> says which value the
  objects reachable from an address form. The store model refines the value model, which
  refines the textbook AVL tree on the library type \<open>'a tree\<close>.

  \<^bold>\<open>The theories.\<close>
  \<^item> \<open>AVL_Prelude\<close>: \<open>AttributeError\<close>, the result type \<open>'a result = py_error + 'a\<close>
    of a method that can raise, the sorted-list insertion \<open>ins_list\<close> and shared list
    lemmas (collection \<open>avl_list_simps\<close>), and Python's \<^verbatim>\<open>str.split\<close>,
    \<^verbatim>\<open>str.join\<close> and \<^verbatim>\<open>str\<close> of an integer.
  \<^item> \<open>AVL_Spec\<close>: the abstract specification: \<open>isin\<close>, \<open>avl\<close>, \<open>rotR\<close>/\<open>rotL\<close>,
    \<open>balL\<close>/\<open>balR\<close> and the textbook insertion \<open>ins_spec\<close>.
  \<^item> \<open>AVL_Node\<close>: the value model of an object; \<open>node_height\<close> (the idiom
    \<^verbatim>\<open>x.height if x is not None else 0\<close>), \<open>skew\<close>, \<open>recalc_height\<close>,
    \<open>right_rotation\<close>, \<open>left_rotation\<close>; the abstraction \<open>tree_of\<close> and the
    well-formedness \<open>nodes_ok\<close> (keys present, stored heights right). Claims C7--C9.
  \<^item> \<open>AVL_Insert\<close>: \<open>balance_update\<close> as its two sequential blocks
    \<open>balance_right_heavy\<close> and \<open>balance_left_heavy\<close>, with the \<open>AttributeError\<close> of
    \<^verbatim>\<open>self.right.skew()\<close> on a missing child; \<open>AVLTree_insert\<close> returning the object
    and the flag; the invariant \<open>avl_invar\<close> of the object the user holds. Claims C1--C6.
  \<^item> \<open>AVL_Repr\<close>: \<open>AVLTree_repr\<close> (\<^verbatim>\<open>__repr__\<close>), with the key rendering as a
    parameter. Claim C12.
  \<^item> \<open>AVL_Build\<close>: \<open>insert_all\<close> and \<open>AVLTree_init\<close> (\<^verbatim>\<open>__init__\<close>), the stubs
    \<open>AVLTree_delete\<close>, \<open>AVLTree_find\<close>, \<open>avl_demo\<close> and its printed text
    \<open>avl_demo_output\<close>. Claims C10, C11.
  \<^item> \<open>AVL_Heap\<close>: the store model: \<open>obj\<close> records, \<open>'a heap = nat \<rightharpoonup> 'a obj\<close>,
    \<open>h_recalc_height\<close>, \<open>h_right_rotation\<close>, \<open>h_left_rotation\<close>, \<open>h_skew\<close>,
    \<open>h_balance_right_heavy\<close>, \<open>h_balance_left_heavy\<close>, \<open>h_balance_update\<close> in the option
    monad (\<open>None\<close>: a dereferenced address is missing); \<open>heap_rep\<close> and its executable
    reading \<open>rep_of\<close>. Claims C15--C17.
  \<^item> \<open>AVL_Heap_Insert\<close>: \<open>h_insert\<close>, \<open>h_insert_all\<close>, \<open>h_AVLTree_init\<close> over the
    store threaded with its next free address; allocation of \<^verbatim>\<open>AVLTree([data])\<close>.
    Claims C13, C14.
  \<^item> this theory: the header, and the computations that back the findings on the
    docstring and on spec section 8.

  \<^bold>\<open>What is shown.\<close> \<^verbatim>\<open>insert\<close> implements \<open>ins_spec\<close> (C2), so it keeps the
  invariant, never raises and inserts into the key set (C1); it returns \<open>True\<close> exactly
  for a new key below a non-empty root (C3) and leaves the object untouched for a present
  key (C4). \<^verbatim>\<open>_balance_update\<close> implements \<open>balL\<close>/\<open>balR\<close> on the nodes insertion
  produces (C5), and its \<open>AttributeError\<close> branches are dead on every node with correct
  heights (C6). The rotations implement \<open>rotR\<close>/\<open>rotL\<close> (C7, C8). The code's
  \<^verbatim>\<open>skew\<close> test at every node is AVL balance (C9). Construction is correct and
  refines the abstract fold (C10, C11). The rendering has one line per object and per
  missing child (C12). On the store: \<^verbatim>\<open>insert\<close> and \<^verbatim>\<open>AVLTree(dataset)\<close> return
  on every well-formed store, keep the root object at its address, allocate exactly one
  object per new key and change no object outside the tree (C13, C14); the rebalancing
  and the rotations keep the root at its address and touch only the subtree's objects
  (C15--C17).

  \<^bold>\<open>Choices.\<close> Keys are any \<open>linorder\<close> (the demo uses \<open>int\<close>); heights and skews
  are \<open>int\<close> as Python's. The value-level recursions follow the tree and are total. The
  store-level \<open>h_insert\<close> follows addresses, so it is a \<open>partial_function (option)\<close>
  (on a cyclic store it would not return); that it returns on every store that
  represents a tree is proved (C13), not assumed. An exception propagates as \<open>Inl\<close>;
  the objects a raising call has already changed are not kept, as no caller catches it.
  The attribute \<^verbatim>\<open>root\<close> is written once and never read, and is left out.

  \<^bold>\<open>Not modelled.\<close> Standard output itself (\<^verbatim>\<open>print\<close> is modelled as the text it
  writes), and the \<^verbatim>\<open>__main__\<close> guard, which only calls \<^verbatim>\<open>avl_demo\<close>.
\<close>

subsection \<open>Computations behind the findings\<close>

text \<open>Inserting \<open>[3, 1, 2]\<close> performs a left rotation of the left child, then a right
  rotation of the root (spec section 8 calls it "right-then-left").\<close>

theorem scenario_3_1_2:
  "AVLTree_init [3, 1, 2 :: int] =
     Inr (right_rotation (AVLTree (Some 3) (Some (left_rotation (AVLTree (Some (1::int)) None (Some (AVLTree (Some 2) None None 1)) 2))) None 3)) \<and>
   right_rotation (AVLTree (Some 3) (Some (left_rotation (AVLTree (Some (1::int)) None (Some (AVLTree (Some 2) None None 1)) 2))) None 3) =
     AVLTree (Some 2) (Some (AVLTree (Some 1) None None 1)) (Some (AVLTree (Some 3) None None 1)) 2"
  by (simp add: AVLTree_init_def empty_node_def balance_update_defs)

text \<open>Contrary to its docstring ("Returns true if height changed"), \<^verbatim>\<open>insert\<close> returns
  \<open>True\<close> when it adds a key without changing the height: 3 into the tree of \<open>[2, 1]\<close>.\<close>

theorem insert_flag_without_height_change:
  "\<exists>t t'. AVLTree_init [2, 1 :: int] = Inr t \<and> AVLTree_insert 3 t = Inr (t', True) \<and> ht t' = ht t"
  by (simp add: AVLTree_init_def empty_node_def balance_update_defs)

end
